theory Spec2Isabelle
  imports Main "HOL-Library.Multiset" "HOL-Library.Char_ord" "HOL-Library.List_Lexorder"
begin

section \<open>Errors\<close>

text \<open>
  The exceptions raised by the modelled functions.  \<open>FileNotFoundError\<close> carries its
  optional argument: \<open>delete.py\<close> raises \<^verbatim>\<open>FileNotFoundError()\<close> from a request's
  failure table and \<^verbatim>\<open>FileNotFoundError(path)\<close> from \<open>rmtree_iterator\<close>.
  \<open>RequestFailure\<close> stands for the error of a request whose status code is neither a
  success code nor listed in its failure table.
\<close>

type_synonym url = string

datatype path =
    AzurePath string string string
  | GooglePath string string
  | LocalPath string
  | UnsupportedPath string

datatype error =
    ValueError
  | AssertionError
  | IsADirectoryError
  | FileNotFoundError "path option"
  | NotADirectoryError path
  | RequestFailure nat

section \<open>read.py: byte ranges\<close>

text \<open>
  Python's \<^verbatim>\<open>range(start, stop, step)\<close> on unbounded integers: \<open>ValueError\<close> for a zero
  step, counting up for a positive step and down for a negative one.
\<close>

function range_up :: "int \<Rightarrow> int \<Rightarrow> int \<Rightarrow> int list" where
  "range_up i stop step =
     (if 0 < step \<and> i < stop then i # range_up (i + step) stop step else [])"
  by pat_completeness auto
termination
  by (relation "measure (\<lambda>(i, stop, step). nat (stop - i))") auto

function range_down :: "int \<Rightarrow> int \<Rightarrow> int \<Rightarrow> int list" where
  "range_down i stop step =
     (if step < 0 \<and> stop < i then i # range_down (i + step) stop step else [])"
  by pat_completeness auto
termination
  by (relation "measure (\<lambda>(i, stop, step). nat (i - stop))") auto

declare range_up.simps [simp del] range_down.simps [simp del]

definition py_range :: "int \<Rightarrow> int \<Rightarrow> int \<Rightarrow> error + int list" where
  "py_range start stop step =
     (if step = 0 then Inl ValueError
      else if 0 < step then Inr (range_up start stop step)
      else Inr (range_down start stop step))"

text \<open>\<^verbatim>\<open>itertools.zip_longest(a, b, fillvalue=v)\<close>: the shorter side is padded with \<open>v\<close>.\<close>

fun zip_longest :: "'a list \<Rightarrow> 'a list \<Rightarrow> 'a \<Rightarrow> ('a \<times> 'a) list" where
  "zip_longest [] [] v = []"
| "zip_longest (x # xs) [] v = (x, v) # zip_longest xs [] v"
| "zip_longest [] (y # ys) v = (v, y) # zip_longest [] ys v"
| "zip_longest (x # xs) (y # ys) v = (x, y) # zip_longest xs ys v"

text \<open>
  The \<^verbatim>\<open>byte_ranges\<close> expression shared by \<^verbatim>\<open>_cloud_read_stream\<close> and
  \<^verbatim>\<open>read_stream_unordered\<close>; \<open>chunk_size\<close> is \<^verbatim>\<open>config.chunk_size\<close>.
\<close>

definition byte_ranges :: "int \<Rightarrow> int \<Rightarrow> error + (int \<times> int) list" where
  "byte_ranges sz chunk_size =
     (case py_range 0 sz chunk_size of
        Inl e \<Rightarrow> Inl e
      | Inr starts \<Rightarrow>
          (case py_range chunk_size sz chunk_size of
             Inl e \<Rightarrow> Inl e
           | Inr ends \<Rightarrow> Inr (zip_longest starts ends sz)))"

text \<open>
  The ranges handed to \<^verbatim>\<open>executor.map_ordered\<close> by \<^verbatim>\<open>_cloud_read_stream\<close> and to
  \<^verbatim>\<open>executor.map_unordered\<close> by \<^verbatim>\<open>read_stream_unordered\<close>.  \<open>getsize\<close> is the value
  that \<^verbatim>\<open>await getsize(path)\<close> returns; it is consulted only when the argument \<^verbatim>\<open>size\<close>
  (here \<open>sz\<close>) is \<open>None\<close>.
\<close>

definition cloud_read_stream_ranges :: "int \<Rightarrow> int option \<Rightarrow> int \<Rightarrow> error + (int \<times> int) list" where
  "cloud_read_stream_ranges getsize sz chunk_size =
     (let sz' = (case sz of None \<Rightarrow> getsize | Some s \<Rightarrow> s)
      in byte_ranges sz' chunk_size)"

definition read_stream_unordered_ranges :: "int \<Rightarrow> int option \<Rightarrow> int \<Rightarrow> error + (int \<times> int) list" where
  "read_stream_unordered_ranges getsize sz chunk_size =
     (let sz' = (case sz of None \<Rightarrow> getsize | Some s \<Rightarrow> s)
      in byte_ranges sz' chunk_size)"

text \<open>Python's \<^verbatim>\<open>str\<close> of an integer, as an f-string renders it.\<close>

function digits :: "nat \<Rightarrow> string" where
  "digits n =
     (if n < 10 then [''0123456789'' ! n]
      else digits (n div 10) @ [''0123456789'' ! (n mod 10)])"
  by pat_completeness auto
termination
  by (relation "measure id") auto

declare digits.simps [simp del]

definition str_int :: "int \<Rightarrow> string" where
  "str_int i = (if i < 0 then CHR ''-'' # digits (nat (- i)) else digits (nat i))"

fun byte_range_to_str :: "int option \<times> int option \<Rightarrow> error + string" where
  "byte_range_to_str (Some start, Some end') =
     Inr (''bytes='' @ str_int start @ ''-'' @ str_int (end' - 1))"
| "byte_range_to_str (Some start, None) = Inr (''bytes='' @ str_int start @ ''-'')"
| "byte_range_to_str (None, Some end') =
     (if 0 < end' then Inr (''bytes=0-'' @ str_int (end' - 1))
      else Inr (''bytes=-'' @ str_int (- end')))"
| "byte_range_to_str (None, None) = Inl AssertionError"

text \<open>
  The \<^verbatim>\<open>Range\<close> header that \<^verbatim>\<open>_azure_read_byte_range\<close> and
  \<^verbatim>\<open>_google_read_byte_range\<close> build from a \<^verbatim>\<open>ByteRange = Tuple[int, int]\<close>: both
  components of the tuple are integers, so both reach \<open>byte_range_to_str\<close> as \<open>Some\<close>.
\<close>

definition read_byte_range_header :: "int \<times> int \<Rightarrow> error + string" where
  "read_byte_range_header byte_range = byte_range_to_str (Some (fst byte_range), Some (snd byte_range))"

text \<open>
  The ranges the claim about \<^verbatim>\<open>_cloud_read_stream\<close> describes, written from its words:
  \<open>(0, c), (c, 2c), \<dots>, ((k - 1) c, size)\<close> with \<open>k\<close> the number of chunks.  This
  definition is the specification side; \<open>byte_ranges\<close> above is the code.
\<close>

definition expected_ranges :: "int \<Rightarrow> int \<Rightarrow> (int \<times> int) list" where
  "expected_ranges sz c =
     map (\<lambda>j. (int j * c, min ((int j + 1) * c) sz)) [0..<nat ((sz + c - 1) div c)]"

text \<open>The zipped ranges of the code, started at an arbitrary offset (for the inductions).\<close>

definition ranges_from :: "int \<Rightarrow> int \<Rightarrow> int \<Rightarrow> (int \<times> int) list" where
  "ranges_from i sz c = zip_longest (range_up i sz c) (range_up (i + c) sz c) sz"

section \<open>delete.py: requests and the collaborators that are not in the sources\<close>

text \<open>
  The \<^verbatim>\<open>Request\<close> objects that \<^verbatim>\<open>_azure_remove\<close> and \<^verbatim>\<open>_google_remove\<close> build, with the
  four fields they set; \<open>http_method\<close> is the field \<^verbatim>\<open>method\<close>.
\<close>

record Request =
  http_method :: string
  url :: url
  success_codes :: "nat list"
  failure_exceptions :: "(nat \<times> error) list"

text \<open>
  \<open>delete.py\<close> imports its collaborators from \<open>path.py\<close>, \<open>request.py\<close>, \<open>listing.py\<close> and
  the standard library, none of which is among the sources.  They are parameters of the
  model, collected in one record; \<open>'b\<close> is the state of the storage backend.
  \<^item> \<open>is_directory_like\<close>, \<open>ensure_directory_like\<close>, \<open>format_url\<close> and \<open>isfile\<close> are the
    methods and the function of \<open>path.py\<close>;
  \<^item> \<open>azurify_request\<close> and \<open>googlify_request\<close> add the authentication of \<open>request.py\<close>;
  \<^item> \<open>respond\<close> is the backend answering a request: a status code and its next state;
  \<^item> \<open>listtree\<close> is the listing of \<open>listing.py\<close>, the entries found under a directory;
  \<^item> \<open>os_remove\<close> and \<open>shutil_rmtree\<close> are the local file system calls.
\<close>

record 'b env =
  is_directory_like :: "path \<Rightarrow> bool"
  ensure_directory_like :: "path \<Rightarrow> path"
  format_url :: "path \<Rightarrow> string \<Rightarrow> url"
  isfile :: "path \<Rightarrow> 'b \<Rightarrow> bool"
  azurify_request :: "Request \<Rightarrow> Request"
  googlify_request :: "Request \<Rightarrow> Request"
  respond :: "Request \<Rightarrow> 'b \<Rightarrow> nat \<times> 'b"
  listtree :: "path \<Rightarrow> 'b \<Rightarrow> path list"
  os_remove :: "string \<Rightarrow> 'b \<Rightarrow> (error + unit) \<times> 'b"
  shutil_rmtree :: "string \<Rightarrow> 'b \<Rightarrow> (error + unit) \<times> 'b"

text \<open>
  What a call does to the outside is recorded as a trace of events next to the backend
  state: the requests sent, the calls of \<^verbatim>\<open>remove\<close> made by \<^verbatim>\<open>remove_wrapper\<close>, the paths
  yielded by \<^verbatim>\<open>rmtree_iterator\<close>, and its calls of \<^verbatim>\<open>isfile\<close>.
\<close>

datatype event =
    Request_sent Request
  | Remove_called path
  | Yielded path
  | Isfile_called path

record 'b world =
  backend :: 'b
  trace :: "event list"

definition log :: "event \<Rightarrow> 'b world \<Rightarrow> 'b world" where
  "log ev w = w\<lparr>trace := trace w @ [ev]\<rparr>"

text \<open>
  Modelled from the spec: \<^verbatim>\<open>Request.execute_reponseless\<close> of \<open>request.py\<close>, which is not
  among the sources.  The specification leaves the delete primitive at the boundary
  (section 6: it "may fail with not-found or type-mismatch conditions"); what the call
  does with the answer is read off the two tables that \<^verbatim>\<open>remove\<close> fills in: the request
  is sent; a status code among \<open>success_codes\<close> is success, a status code with an entry
  in \<open>failure_exceptions\<close> raises that entry, any other status code raises
  \<open>RequestFailure\<close>.
\<close>

definition execute_reponseless :: "'b env \<Rightarrow> Request \<Rightarrow> 'b world \<Rightarrow> (error + unit) \<times> 'b world" where
  "execute_reponseless env request w =
     (let (status, b') = respond env request (backend w);
          w' = log (Request_sent request) (w\<lparr>backend := b'\<rparr>)
      in if status \<in> set (success_codes request) then (Inr (), w')
         else (case map_of (failure_exceptions request) status of
                 Some exc \<Rightarrow> (Inl exc, w')
               | None \<Rightarrow> (Inl (RequestFailure status), w')))"

section \<open>delete.py: remove\<close>

definition azure_delete_request :: "'b env \<Rightarrow> path \<Rightarrow> Request" where
  "azure_delete_request env path =
     \<lparr>http_method = ''DELETE'',
      url = format_url env path ''https://{account}.blob.core.windows.net/{container}/{blob}'',
      success_codes = [202],
      failure_exceptions = [(404, FileNotFoundError None)]\<rparr>"

definition google_delete_request :: "'b env \<Rightarrow> path \<Rightarrow> Request" where
  "google_delete_request env path =
     \<lparr>http_method = ''DELETE'',
      url = format_url env path ''https://storage.googleapis.com/storage/v1/b/{bucket}/o/{blob}'',
      success_codes = [204],
      failure_exceptions = [(404, FileNotFoundError None)]\<rparr>"

definition azure_remove :: "'b env \<Rightarrow> path \<Rightarrow> 'b world \<Rightarrow> (error + unit) \<times> 'b world" where
  "azure_remove env path w =
     (if is_directory_like env path then (Inl IsADirectoryError, w)
      else let request = azurify_request env (azure_delete_request env path)
           in execute_reponseless env request w)"

definition google_remove :: "'b env \<Rightarrow> path \<Rightarrow> 'b world \<Rightarrow> (error + unit) \<times> 'b world" where
  "google_remove env path w =
     (if is_directory_like env path then (Inl IsADirectoryError, w)
      else let request = googlify_request env (google_delete_request env path)
           in execute_reponseless env request w)"

definition local_remove :: "'b env \<Rightarrow> string \<Rightarrow> 'b world \<Rightarrow> (error + unit) \<times> 'b world" where
  "local_remove env file w =
     (let (r, b') = os_remove env file (backend w) in (r, w\<lparr>backend := b'\<rparr>))"

text \<open>
  \<^verbatim>\<open>remove\<close> dispatches on the class of the path (\<^verbatim>\<open>@pathdispatch\<close>); a path of no
  registered class reaches the body of the generic function, which raises \<open>ValueError\<close>.
\<close>

fun remove :: "'b env \<Rightarrow> path \<Rightarrow> 'b world \<Rightarrow> (error + unit) \<times> 'b world" where
  "remove env (AzurePath account container blob) w = azure_remove env (AzurePath account container blob) w"
| "remove env (GooglePath bucket blob) w = google_remove env (GooglePath bucket blob) w"
| "remove env (LocalPath file) w = local_remove env file w"
| "remove env (UnsupportedPath s) w = (Inl ValueError, w)"

text \<open>The paths of class \<^verbatim>\<open>CloudPath\<close>: Azure and Google paths.\<close>

fun is_cloud :: "path \<Rightarrow> bool" where
  "is_cloud (AzurePath account container blob) = True"
| "is_cloud (GooglePath bucket blob) = True"
| "is_cloud (LocalPath file) = False"
| "is_cloud (UnsupportedPath s) = False"

text \<open>The request that \<^verbatim>\<open>remove\<close> sends for a cloud path that is not directory-like.\<close>

fun delete_request :: "'b env \<Rightarrow> path \<Rightarrow> Request" where
  "delete_request env (GooglePath bucket blob) =
     googlify_request env (google_delete_request env (GooglePath bucket blob))"
| "delete_request env path = azurify_request env (azure_delete_request env path)"

text \<open>
  Authentication that leaves the status-code tables of a request as the caller set them:
  \<^verbatim>\<open>azurify_request\<close> and \<^verbatim>\<open>googlify_request\<close> are expected to add credentials only.
\<close>

definition keeps_codes :: "(Request \<Rightarrow> Request) \<Rightarrow> bool" where
  "keeps_codes auth \<longleftrightarrow>
     (\<forall>r. success_codes (auth r) = success_codes r
        \<and> failure_exceptions (auth r) = failure_exceptions r)"

section \<open>delete.py: rmtree\<close>

text \<open>
  Modelled from the spec: \<^verbatim>\<open>BoostExecutor.map_unordered\<close> of \<open>boost.py\<close>, which is not
  among the sources.  Section 4.1 of the specification: at most \<open>N\<close> tasks are in flight,
  inputs are pulled in their order and only when a slot is free, an output is delivered as
  soon as its task completes, in any order, and the first task failure cancels the other
  tasks in flight and is raised.  The interleaving is a schedule, a list of choices:
  \<open>Start\<close> pulls the next input into a free slot, \<open>Finish i\<close> completes the \<open>i\<close>-th task
  in flight.  A choice that is not enabled leaves the configuration as it is.

  The task of \<^verbatim>\<open>rmtree_iterator\<close> is its closure \<^verbatim>\<open>remove_wrapper\<close>: when the task starts
  it sets \<^verbatim>\<open>subpath_exists\<close> and calls \<^verbatim>\<open>remove\<close>; when it completes, the backend has
  answered, and \<^verbatim>\<open>rmtree_iterator\<close> yields the entry.
\<close>

datatype choice = Start | Finish nat

record 'b exec =
  pending :: "path list"
  running :: "path list"
  world :: "'b world"
  subpath_exists :: bool
  failure :: "error option"

fun step :: "'b env \<Rightarrow> nat \<Rightarrow> choice \<Rightarrow> 'b exec \<Rightarrow> 'b exec" where
  "step env N Start c =
     (if failure c \<noteq> None then c
      else (case pending c of
              [] \<Rightarrow> c
            | entry # rest \<Rightarrow>
                if length (running c) < N
                then c\<lparr>pending := rest, running := running c @ [entry],
                       world := log (Remove_called entry) (world c),
                       subpath_exists := True\<rparr>
                else c))"
| "step env N (Finish i) c =
     (if failure c \<noteq> None then c
      else if i < length (running c)
      then (let entry = running c ! i in
            case remove env entry (world c) of
              (Inr u, w') \<Rightarrow>
                c\<lparr>running := take i (running c) @ drop (Suc i) (running c),
                  world := log (Yielded entry) w'\<rparr>
            | (Inl exc, w') \<Rightarrow>
                c\<lparr>running := [], world := w', failure := Some exc\<rparr>)
      else c)"

definition run :: "'b env \<Rightarrow> nat \<Rightarrow> choice list \<Rightarrow> 'b exec \<Rightarrow> 'b exec" where
  "run env N schedule c = fold (step env N) schedule c"

text \<open>
  The configuration in which \<^verbatim>\<open>rmtree_iterator\<close> enters its loop: nothing pulled from the
  listing yet, \<^verbatim>\<open>subpath_exists = False\<close>.
\<close>

definition init :: "path list \<Rightarrow> 'b \<Rightarrow> 'b exec" where
  "init entries b =
     \<lparr>pending = entries, running = [], world = \<lparr>backend = b, trace = []\<rparr>,
      subpath_exists = False, failure = None\<rparr>"

text \<open>The \<^verbatim>\<open>async for\<close> loop is over when a task has failed or every input has completed.\<close>

definition finished :: "'b exec \<Rightarrow> bool" where
  "finished c \<longleftrightarrow> failure c \<noteq> None \<or> (pending c = [] \<and> running c = [])"

fun yielded_paths :: "event list \<Rightarrow> path list" where
  "yielded_paths [] = []"
| "yielded_paths (Yielded p # evs) = p # yielded_paths evs"
| "yielded_paths (ev # evs) = yielded_paths evs"

record 'b outcome =
  yielded :: "path list"
  raised :: "error option"
  final :: "'b world"

text \<open>
  \<^verbatim>\<open>rmtree_iterator(path, executor)\<close> on the backend state \<open>b\<close>, with an executor of \<open>N\<close>
  slots and a schedule.  The result is \<open>None\<close> when the schedule ends before the loop
  does.  The loop variable of \<^verbatim>\<open>async for path in ...\<close> rebinds the parameter \<^verbatim>\<open>path\<close>:
  after the loop \<^verbatim>\<open>path\<close> is the last yielded entry, if there was one.
\<close>

definition rmtree_iterator :: "'b env \<Rightarrow> nat \<Rightarrow> choice list \<Rightarrow> path \<Rightarrow> 'b \<Rightarrow> 'b outcome option" where
  "rmtree_iterator env N schedule path b =
     (let dirpath = ensure_directory_like env path;
          it = listtree env dirpath b;
          c = run env N schedule (init it b);
          ys = yielded_paths (trace (world c))
      in if \<not> finished c then None
         else (case failure c of
                 Some exc \<Rightarrow> Some \<lparr>yielded = ys, raised = Some exc, final = world c\<rparr>
               | None \<Rightarrow>
                   (let path' = (if ys = [] then path else last ys) in
                    if \<not> subpath_exists c
                    then (let w' = log (Isfile_called path') (world c) in
                          if \<not> isfile env path' (backend w')
                          then Some \<lparr>yielded = ys, raised = Some (FileNotFoundError (Some path')), final = w'\<rparr>
                          else Some \<lparr>yielded = ys, raised = Some (NotADirectoryError path'), final = w'\<rparr>)
                    else Some \<lparr>yielded = ys, raised = None, final = world c\<rparr>)))"

text \<open>
  \<^verbatim>\<open>rmtree\<close>: \<^verbatim>\<open>_cloud_rmtree\<close> consumes the iterator, so what remains is the error, if
  any, and the world; \<^verbatim>\<open>_local_rmtree\<close> is \<^verbatim>\<open>shutil.rmtree\<close>.
\<close>

fun rmtree :: "'b env \<Rightarrow> nat \<Rightarrow> choice list \<Rightarrow> path \<Rightarrow> 'b \<Rightarrow> (error option \<times> 'b world) option" where
  "rmtree env N schedule (LocalPath file) b =
     (let (r, b') = shutil_rmtree env file b
      in Some (case r of Inl exc \<Rightarrow> Some exc | Inr u \<Rightarrow> None, \<lparr>backend = b', trace = []\<rparr>))"
| "rmtree env N schedule (UnsupportedPath s) b = Some (Some ValueError, \<lparr>backend = b, trace = []\<rparr>)"
| "rmtree env N schedule path b =
     (case rmtree_iterator env N schedule path b of
        None \<Rightarrow> None
      | Some out \<Rightarrow> Some (raised out, final out))"

text \<open>The schedule that runs the tasks one after the other, for \<open>k\<close> inputs.\<close>

definition sequential :: "nat \<Rightarrow> choice list" where
  "sequential k = concat (replicate k [Start, Finish 0])"





text \<open>What every run of the loop keeps, from the initial configuration on.\<close>

definition run_inv :: "'b env \<Rightarrow> path list \<Rightarrow> 'b exec \<Rightarrow> bool" where
  "run_inv env entries c \<longleftrightarrow>
     (failure c = None \<longrightarrow>
        mset (yielded_paths (trace (world c))) + mset (running c) + mset (pending c) = mset entries)
   \<and> length (pending c) \<le> length entries
   \<and> (subpath_exists c \<longleftrightarrow> length (pending c) < length entries)
   \<and> (\<forall>p. Isfile_called p \<notin> set (trace (world c)))
   \<and> (\<forall>p \<in> set (running c). Remove_called p \<in> set (trace (world c)))
   \<and> (\<forall>tr1 p tr2. trace (world c) = tr1 @ Yielded p # tr2 \<longrightarrow> Remove_called p \<in> set tr1)
   \<and> (yielded_paths (trace (world c)) \<noteq> [] \<longrightarrow> subpath_exists c)
   \<and> (\<forall>exc. failure c = Some exc \<longrightarrow>
          subpath_exists c \<and> (\<exists>entry \<in> set entries. \<exists>w w'. remove env entry w = (Inl exc, w')))"


section \<open>A small object store\<close>

text \<open>
  A concrete backend on which the definitions above can be evaluated: the state is the
  list of the blobs in the store.  A \<^verbatim>\<open>DELETE\<close> of a blob in the store removes it and
  answers 202 (Azure) or 204 (Google); for any other URL the answer is 404.
\<close>

fun blob_of :: "path \<Rightarrow> string" where
  "blob_of (AzurePath account container blob) = blob"
| "blob_of (GooglePath bucket blob) = blob"
| "blob_of (LocalPath file) = file"
| "blob_of (UnsupportedPath s) = s"

fun with_blob :: "path \<Rightarrow> string \<Rightarrow> path" where
  "with_blob (AzurePath account container blob) blob' = AzurePath account container blob'"
| "with_blob (GooglePath bucket blob) blob' = GooglePath bucket blob'"
| "with_blob (LocalPath file) blob' = LocalPath blob'"
| "with_blob (UnsupportedPath s) blob' = UnsupportedPath blob'"

fun store_url :: "path \<Rightarrow> url" where
  "store_url (AzurePath account container blob) =
     ''https://'' @ account @ ''.blob.core.windows.net/'' @ container @ ''/'' @ blob"
| "store_url (GooglePath bucket blob) =
     ''https://storage.googleapis.com/storage/v1/b/'' @ bucket @ ''/o/'' @ blob"
| "store_url (LocalPath file) = file"
| "store_url (UnsupportedPath s) = s"

fun store_status :: "path \<Rightarrow> nat" where
  "store_status (AzurePath account container blob) = 202"
| "store_status p = 204"

definition store_directory_like :: "path \<Rightarrow> bool" where
  "store_directory_like p \<longleftrightarrow> blob_of p = [] \<or> last (blob_of p) = CHR ''/''"

definition store_respond :: "Request \<Rightarrow> path list \<Rightarrow> nat \<times> path list" where
  "store_respond r b =
     (case find (\<lambda>p. store_url p = url r) b of
        None \<Rightarrow> (404, b)
      | Some p \<Rightarrow> if http_method r = ''DELETE'' then (store_status p, remove1 p b) else (405, b))"

definition store :: "(path list) env" where
  "store =
     \<lparr>is_directory_like = store_directory_like,
      ensure_directory_like = (\<lambda>p. if store_directory_like p then p else with_blob p (blob_of p @ ''/'')),
      format_url = (\<lambda>p template. store_url p),
      isfile = (\<lambda>p b. p \<in> set b),
      azurify_request = (\<lambda>r. r),
      googlify_request = (\<lambda>r. r),
      respond = store_respond,
      listtree = (\<lambda>dir b. filter (\<lambda>p. with_blob p [] = with_blob dir []
                                     \<and> take (length (blob_of dir)) (blob_of p) = blob_of dir) b),
      os_remove = (\<lambda>file b. (Inr (), b)),
      shutil_rmtree = (\<lambda>file b. (Inr (), b))\<rparr>"

text \<open>A bucket with a directory \<^verbatim>\<open>d/\<close> of three blobs and one blob beside it.\<close>

definition tree_d :: "path list" where
  "tree_d = [GooglePath ''bk'' ''d/a'', GooglePath ''bk'' ''d/b'', GooglePath ''bk'' ''d/e/c'']"

definition bucket :: "path list" where
  "bucket = GooglePath ''bk'' ''f'' # tree_d"



text \<open>
  The store with a listing that still shows the blob \<^verbatim>\<open>d/ghost\<close>, which another client
  has deleted in the meantime.
\<close>

definition store_stale :: "(path list) env" where
  "store_stale = store\<lparr>listtree := (\<lambda>dir b. listtree store dir b @ [GooglePath ''bk'' ''d/ghost''])\<rparr>"

section \<open>syncing: the diff engine and the driver\<close>

text \<open>
  Modelled from the spec: \<open>syncing.py\<close> (\<^verbatim>\<open>CopyAction\<close>, \<^verbatim>\<open>DeleteAction\<close>,
  \<^verbatim>\<open>sync_iterator\<close>, \<^verbatim>\<open>sync\<close>) and \<open>listing.py\<close> (\<^verbatim>\<open>DirEntry\<close>, \<^verbatim>\<open>listtree\<close>), which
  are not among the sources; of this part of the repository the sources hold the test
  \<open>tests/test_syncing.py\<close> only.

  The data and the algorithm are those of sections 3, 4.3, 4.4 and 6 of the
  specification: a \<open>DirEntry\<close> is a relative path, a size in bytes, a modification time
  and a directory flag; both listings are sorted by relative path and merge-joined; a path
  only in the source gives a \<open>CopyAction\<close> with the source size, a path only in the
  destination a \<open>DeleteAction\<close> if and only if deletion is requested, a path in both a
  \<open>CopyAction\<close> when the sizes differ.

  One thing is left open, because the specification and the test disagree on it: what is
  done for a path in both trees whose two sizes are equal.  The specification says
  nothing is emitted.  The test rewrites \<^verbatim>\<open>delta/f9\<close> in the source with other contents
  of the same size and asserts \<^verbatim>\<open>CopyAction("delta/f9", 4)\<close>.  So the comparison made at
  equal sizes is a parameter \<open>changed\<close> of the model, and the size-only comparison of the
  specification is the instance \<open>size_only\<close>.
\<close>

record DirEntry =
  relpath :: string
  entry_size :: nat
  mtime :: int
  is_dir :: bool

datatype Action = CopyAction string nat | DeleteAction string

fun action_relpath :: "Action \<Rightarrow> string" where
  "action_relpath (CopyAction p sz) = p"
| "action_relpath (DeleteAction p) = p"

text \<open>
  The comparison made for a path in both trees when the two sizes are equal: the source
  entry, the destination entry, and whether the file counts as changed.
\<close>

type_synonym comparison = "DirEntry \<Rightarrow> DirEntry \<Rightarrow> bool"

text \<open>Section 4.3: "compare size only"; "equal size \<rightarrow> nothing".\<close>

definition size_only :: comparison where
  "size_only s d \<longleftrightarrow> False"

text \<open>Whether the source entry of a path replaces the destination entry of the same path.\<close>

definition differs :: "comparison \<Rightarrow> DirEntry \<Rightarrow> DirEntry \<Rightarrow> bool" where
  "differs changed s d \<longleftrightarrow> entry_size s \<noteq> entry_size d \<or> changed s d"

text \<open>The merge-join of the two sorted listings; \<open>delete\<close> is the request for deletion.\<close>

fun merge_join :: "comparison \<Rightarrow> bool \<Rightarrow> DirEntry list \<Rightarrow> DirEntry list \<Rightarrow> Action list" where
  "merge_join changed delete [] [] = []"
| "merge_join changed delete (s # ss) [] =
     CopyAction (relpath s) (entry_size s) # merge_join changed delete ss []"
| "merge_join changed delete [] (d # ds) =
     (if delete then DeleteAction (relpath d) # merge_join changed delete [] ds
      else merge_join changed delete [] ds)"
| "merge_join changed delete (s # ss) (d # ds) =
     (if relpath s < relpath d
      then CopyAction (relpath s) (entry_size s) # merge_join changed delete ss (d # ds)
      else if relpath d < relpath s
      then (if delete then DeleteAction (relpath d) # merge_join changed delete (s # ss) ds
            else merge_join changed delete (s # ss) ds)
      else if differs changed s d
      then CopyAction (relpath s) (entry_size s) # merge_join changed delete ss ds
      else merge_join changed delete ss ds)"

text \<open>
  \<^verbatim>\<open>sync_iterator(src, dst, delete)\<close> on the listings of the two trees, which come in any
  order.
\<close>

definition sync_iterator :: "comparison \<Rightarrow> bool \<Rightarrow> DirEntry list \<Rightarrow> DirEntry list \<Rightarrow> Action list" where
  "sync_iterator changed delete src dst =
     merge_join changed delete (sort_key relpath src) (sort_key relpath dst)"

text \<open>
  A call of \<^verbatim>\<open>sync_iterator\<close> that passes the argument \<^verbatim>\<open>delete\<close> or leaves it out, in
  which case it takes its default.  Section 6 gives the interface
  \<^verbatim>\<open>sync_iterator(src, dst, delete=false)\<close>; the test calls
  \<^verbatim>\<open>sync_iterator(any_dir, other_any_dir)\<close>.
\<close>

definition sync_iterator_call :: "comparison \<Rightarrow> bool \<Rightarrow> bool option \<Rightarrow> DirEntry list \<Rightarrow> DirEntry list
    \<Rightarrow> Action list" where
  "sync_iterator_call changed default_delete delete src dst =
     sync_iterator changed (case delete of None \<Rightarrow> default_delete | Some flag \<Rightarrow> flag) src dst"

text \<open>
  A tree as the driver changes it: the size and the modification time of each file, by
  relative path.  \<open>tree_of\<close> is the tree that a listing lists.
\<close>

type_synonym tree = "string \<rightharpoonup> nat \<times> int"

definition tree_of :: "DirEntry list \<Rightarrow> tree" where
  "tree_of entries = map_of (map (\<lambda>e. (relpath e, (entry_size e, mtime e))) entries)"

text \<open>The (path, size) pairs of a tree.\<close>

definition path_sizes :: "tree \<Rightarrow> (string \<rightharpoonup> nat)" where
  "path_sizes t = (\<lambda>p. map_option fst (t p))"

text \<open>
  Section 4.4: a \<open>CopyAction\<close> copies the file, of the size in the action, from the source
  to the destination, and a \<open>DeleteAction\<close> deletes the destination file.  \<open>stamp p\<close> is
  the modification time that the destination gives to the file it writes at \<open>p\<close>.
\<close>

fun apply_action :: "(string \<Rightarrow> int) \<Rightarrow> Action \<Rightarrow> tree \<Rightarrow> tree" where
  "apply_action stamp (CopyAction p sz) t = t(p \<mapsto> (sz, stamp p))"
| "apply_action stamp (DeleteAction p) t = t(p := None)"

text \<open>
  \<^verbatim>\<open>sync(src, dst, executor, delete)\<close>: the actions of the diff, applied through the
  unordered mapping.  \<open>order\<close> is the order in which the actions complete; it is a run of
  the driver when it is a permutation of the actions.  The result is the destination tree
  and the completed paths.
\<close>

definition apply_actions :: "(string \<Rightarrow> int) \<Rightarrow> Action list \<Rightarrow> tree \<Rightarrow> tree" where
  "apply_actions stamp actions t = fold (apply_action stamp) actions t"

definition sync :: "comparison \<Rightarrow> (string \<Rightarrow> int) \<Rightarrow> bool \<Rightarrow> Action list \<Rightarrow> DirEntry list
    \<Rightarrow> DirEntry list \<Rightarrow> (tree \<times> string list) option" where
  "sync changed stamp delete order src dst =
     (if mset order = mset (sync_iterator changed delete src dst)
      then Some (apply_actions stamp order (tree_of dst), map action_relpath order)
      else None)"

text \<open>A listing of a tree: the entries of its files, each once, in any order.\<close>

definition lists_tree :: "DirEntry list \<Rightarrow> tree \<Rightarrow> bool" where
  "lists_tree entries t \<longleftrightarrow> distinct (map relpath entries) \<and> tree_of entries = t"

text \<open>
  The paths that have to be written or deleted for the destination to have the (path,
  size) pairs of the source: those of the source that the destination lacks or has with
  another size and, when deletion is requested, those of the destination that the source
  lacks.
\<close>

definition needed :: "bool \<Rightarrow> tree \<Rightarrow> tree \<Rightarrow> string set" where
  "needed delete s d =
     {p. \<exists>sz. path_sizes s p = Some sz \<and> path_sizes d p \<noteq> Some sz}
     \<union> (if delete then {p. s p = None \<and> d p \<noteq> None} else {})"

text \<open>The goal of a sync: equal (path, size) pairs, or a superset of the source's.\<close>

definition synced :: "bool \<Rightarrow> tree \<Rightarrow> tree \<Rightarrow> bool" where
  "synced delete s d \<longleftrightarrow>
     (if delete then path_sizes d = path_sizes s else path_sizes s \<subseteq>\<^sub>m path_sizes d)"

subsection \<open>The scenario of \<open>test_sync\<close>\<close>

text \<open>
  The trees of \<open>tests/test_syncing.py\<close> at the call of \<^verbatim>\<open>sync_iterator\<close>.  The ten files
  are created at time 0, with \<open>n\<close> bytes each (what \<^verbatim>\<open>helpers.unsafe_create_file\<close> writes
  by default is not in the sources) except \<^verbatim>\<open>delta/f9\<close>, whose contents \<^verbatim>\<open>b"1234"\<close> are 4
  bytes.  The first sync runs after the sleep, at time 1, and writes the destination.
  Then \<^verbatim>\<open>f2\<close> is removed from the source and \<^verbatim>\<open>delta/f9\<close> is rewritten with
  \<^verbatim>\<open>b"ABCD"\<close>, at time 2.
\<close>

definition file_entry :: "string \<Rightarrow> nat \<Rightarrow> int \<Rightarrow> DirEntry" where
  "file_entry p sz t = \<lparr>relpath = p, entry_size = sz, mtime = t, is_dir = False\<rparr>"

definition test_created :: "nat \<Rightarrow> int \<Rightarrow> DirEntry list" where
  "test_created n t =
     [file_entry ''f1'' n t, file_entry ''f2'' n t, file_entry ''f3'' n t,
      file_entry ''alpha/f4'' n t, file_entry ''alpha/f5'' n t,
      file_entry ''alpha/beta/f6'' n t, file_entry ''alpha/beta/f7'' n t,
      file_entry ''alpha/beta/gamma/f8'' n t,
      file_entry ''delta/f9'' 4 t, file_entry ''delta/epsilon/f10'' n t]"

definition test_dst :: "nat \<Rightarrow> DirEntry list" where
  "test_dst n = test_created n 1"

definition test_src :: "nat \<Rightarrow> DirEntry list" where
  "test_src n =
     map (\<lambda>e. if relpath e = ''delta/f9'' then file_entry ''delta/f9'' 4 2 else e)
       (filter (\<lambda>e. relpath e \<noteq> ''f2'') (test_created n 0))"

text \<open>The list that the test asserts the sorted actions to be.\<close>

definition test_sync_expected :: "Action list" where
  "test_sync_expected = [CopyAction ''delta/f9'' 4, DeleteAction ''f2'']"

subsection \<open>Evaluation points\<close>

text \<open>A listing sorted by relative path, one entry per path.\<close>

definition ascending :: "DirEntry list \<Rightarrow> bool" where
  "ascending es \<longleftrightarrow> sorted_wrt (<) (map relpath es)"

text \<open>
  A comparison by modification time, to evaluate the model at: the source entry is the
  newer one.  With it, and with deletion requested when the argument is left out, the
  model gives the list that the test asserts; the test does not say that the code makes
  this comparison.
\<close>

definition source_newer :: comparison where
  "source_newer s d \<longleftrightarrow> mtime d < mtime s"

text \<open>
  Modification times given by the destination: at the first sync of the test (time 1)
  and at a later sync (time 3).
\<close>

definition first_stamp :: "string \<Rightarrow> int" where
  "first_stamp p = 1"

definition second_stamp :: "string \<Rightarrow> int" where
  "second_stamp p = 3"

section \<open>Byte ranges: proofs\<close>

lemma range_up_Cons: "0 < c \<Longrightarrow> i < sz \<Longrightarrow> range_up i sz c = i # range_up (i + c) sz c"
  by (subst range_up.simps) simp

lemma range_up_Nil: "\<not> i < sz \<Longrightarrow> range_up i sz c = []"
  by (subst range_up.simps) simp

lemma ranges_from_Nil: "0 < c \<Longrightarrow> \<not> i < sz \<Longrightarrow> ranges_from i sz c = []"
  by (simp add: ranges_from_def range_up_Nil)

lemma ranges_from_last:
  assumes "0 < c" "i < sz" "\<not> i + c < sz"
  shows "ranges_from i sz c = [(i, sz)]"
proof -
  have e1: "range_up (i + c) sz c = []" using assms(3) by (rule range_up_Nil)
  have e0: "range_up i sz c = [i]" using range_up_Cons[OF assms(1,2)] e1 by simp
  show ?thesis unfolding ranges_from_def e0 e1 by simp
qed

lemma ranges_from_Cons:
  assumes "0 < c" "i + c < sz"
  shows "ranges_from i sz c = (i, i + c) # ranges_from (i + c) sz c"
proof -
  from assms have "i < sz" by simp
  then have e0: "range_up i sz c = i # range_up (i + c) sz c"
    using assms(1) by (simp add: range_up_Cons)
  have e1: "range_up (i + c) sz c = (i + c) # range_up (i + c + c) sz c"
    using assms by (simp add: range_up_Cons)
  show ?thesis
    unfolding ranges_from_def by (subst e0, subst e1) (simp add: ac_simps)
qed

lemma ranges_from_closed:
  "0 < c \<Longrightarrow> ranges_from i sz c =
     map (\<lambda>j. (i + int j * c, min (i + (int j + 1) * c) sz)) [0..<nat ((sz - i + c - 1) div c)]"
proof (induction i sz c rule: range_up.induct)
  case (1 i stop step)
  note step = \<open>0 < step\<close>
  let ?k = "\<lambda>i. nat ((stop - i + step - 1) div step)"
  show ?case
  proof (cases "i < stop")
    case False
    have "(stop - i + step - 1) div step \<le> 0"
    proof (cases "stop - i + step - 1 < 0")
      case True
      then show ?thesis using step by (simp add: pos_imp_zdiv_neg_iff less_imp_le)
    next
      case False
      with \<open>\<not> i < stop\<close> have "(stop - i + step - 1) div step = 0"
        by (intro div_pos_pos_trivial) simp_all
      then show ?thesis by simp
    qed
    then show ?thesis using False step by (simp add: ranges_from_Nil)
  next
    case True
    have split: "stop - i + step - 1 = (stop - (i + step) + step - 1) + step" by simp
    have nonneg: "0 \<le> (stop - (i + step) + step - 1) div step"
      using True step by (simp add: pos_imp_zdiv_nonneg_iff)
    have "(stop - i + step - 1) div step = (stop - (i + step) + step - 1) div step + 1"
    proof -
      have "step \<noteq> 0" using step by simp
      from div_add_self2[OF this, of "stop - (i + step) + step - 1"] show ?thesis
        by (simp only: split)
    qed
    with nonneg have k: "?k i = Suc (?k (i + step))" by simp
    have ih: "ranges_from (i + step) stop step =
       map (\<lambda>j. (i + step + int j * step, min (i + step + (int j + 1) * step) stop))
         [0..<?k (i + step)]"
      using 1(1) True step by simp
    have unroll: "ranges_from i stop step = (i, min (i + step) stop) # ranges_from (i + step) stop step"
    proof (cases "i + step < stop")
      case True
      then show ?thesis using step by (simp add: ranges_from_Cons)
    next
      case False
      then show ?thesis using step True by (simp add: ranges_from_last ranges_from_Nil)
    qed
    have "map (\<lambda>j. (i + int j * step, min (i + (int j + 1) * step) stop)) [0..<Suc (?k (i + step))] =
          (i, min (i + step) stop) #
          map (\<lambda>j. (i + step + int j * step, min (i + step + (int j + 1) * step) stop)) [0..<?k (i + step)]"
      by (simp add: upt_conv_Cons map_Suc_upt[symmetric] algebra_simps del: upt_Suc)
    then show ?thesis unfolding unroll ih k by simp
  qed
qed

lemma ranges_from_cover:
  "0 < c \<Longrightarrow> concat (map (\<lambda>(a, b). [a..b - 1]) (ranges_from i sz c)) = [i..sz - 1]"
proof (induction i sz c rule: range_up.induct)
  case (1 i stop step)
  note step = \<open>0 < step\<close>
  consider "\<not> i < stop" | "i < stop" "\<not> i + step < stop" | "i + step < stop" by blast
  then show ?case
  proof cases
    case 1
    then show ?thesis using step by (simp add: ranges_from_Nil)
  next
    case 2
    then show ?thesis using step by (simp add: ranges_from_last)
  next
    case 3
    then have "i < stop" using step by simp
    with 1(1) step have ih:
      "concat (map (\<lambda>(a, b). [a..b - 1]) (ranges_from (i + step) stop step)) = [i + step..stop - 1]"
      by simp
    have "[i..stop - 1] = [i..i + step - 1] @ [i + step..stop - 1]"
      using 3 step upto_split1[of i "i + step" "stop - 1"] by simp
    then show ?thesis using 3 step ih by (simp add: ranges_from_Cons)
  qed
qed

lemma ranges_from_butlast:
  "0 < c \<Longrightarrow> r \<in> set (butlast (ranges_from i sz c)) \<Longrightarrow> snd r - fst r = c"
proof (induction i sz c rule: range_up.induct)
  case (1 i stop step)
  note step = \<open>0 < step\<close>
  consider "\<not> i < stop" | "i < stop" "\<not> i + step < stop" | "i + step < stop" by blast
  then show ?case
  proof cases
    case 1
    then show ?thesis using step "1.prems"(2) by (simp add: ranges_from_Nil)
  next
    case 2
    then show ?thesis using step "1.prems"(2) by (simp add: ranges_from_last)
  next
    case 3
    then have "i < stop" using step by simp
    with 1 3 show ?thesis
      by (auto simp: ranges_from_Cons split: if_splits)
  qed
qed

lemma ranges_from_nonempty:
  "0 < c \<Longrightarrow> r \<in> set (ranges_from i sz c) \<Longrightarrow> i \<le> fst r \<and> fst r < snd r \<and> snd r \<le> sz"
proof (induction i sz c rule: range_up.induct)
  case (1 i stop step)
  note step = \<open>0 < step\<close>
  consider "\<not> i < stop" | "i < stop" "\<not> i + step < stop" | "i + step < stop" by blast
  then show ?case
  proof cases
    case 1
    then show ?thesis using step "1.prems"(2) by (simp add: ranges_from_Nil)
  next
    case 2
    then show ?thesis using step "1.prems"(2) by (simp add: ranges_from_last)
  next
    case 3
    then have "i < stop" using step by simp
    with 1 3 show ?thesis
      by (fastforce simp: ranges_from_Cons)
  qed
qed

lemma byte_ranges_eq: "0 < c \<Longrightarrow> byte_ranges sz c = Inr (ranges_from 0 sz c)"
  by (simp add: byte_ranges_def py_range_def ranges_from_def)

lemma ranges_from_expected: "0 < c \<Longrightarrow> ranges_from 0 sz c = expected_ranges sz c"
  by (simp add: ranges_from_closed expected_ranges_def)

lemma byte_range_to_str_both:
  "read_byte_range_header (a, b) = Inr (''bytes='' @ str_int a @ ''-'' @ str_int (b - 1))"
  by (simp add: read_byte_range_header_def)

text \<open>
  Claim C9.  For every size \<open>s \<ge> 0\<close> (the argument, or what \<^verbatim>\<open>getsize\<close> returned
  when the argument is \<open>None\<close>) and every chunk size \<open>c > 0\<close>, the byte ranges that
  \<^verbatim>\<open>_cloud_read_stream\<close> passes to \<^verbatim>\<open>map_ordered\<close>, and \<^verbatim>\<open>read_stream_unordered\<close>
  to \<^verbatim>\<open>map_unordered\<close>, are exactly \<open>(0, c), (c, 2c), \<dots>, ((k - 1) c, s)\<close>.  Laid end
  to end, in the order produced, the half-open ranges enumerate \<open>0, \<dots>, s - 1\<close> once each
  (so they are increasing, do not overlap and cover \<open>[0, s)\<close> exactly); every range but the
  last has length \<open>c\<close>; and size \<open>0\<close> gives no range.
\<close>

theorem cloud_read_stream_byte_ranges:
  assumes "0 < chunk_size" and "s = (case sz of None \<Rightarrow> getsize | Some n \<Rightarrow> n)" and "0 \<le> s"
  shows "\<exists>rs. cloud_read_stream_ranges getsize sz chunk_size = Inr rs
            \<and> read_stream_unordered_ranges getsize sz chunk_size = Inr rs
            \<and> rs = expected_ranges s chunk_size
            \<and> concat (map (\<lambda>(a, b). [a..b - 1]) rs) = [0..s - 1]
            \<and> (\<forall>r \<in> set (butlast rs). snd r - fst r = chunk_size)
            \<and> (s = 0 \<longrightarrow> rs = [])"
proof -
  let ?rs = "ranges_from 0 s chunk_size"
  have "cloud_read_stream_ranges getsize sz chunk_size = Inr ?rs"
    using assms by (simp add: cloud_read_stream_ranges_def byte_ranges_eq)
  moreover have "read_stream_unordered_ranges getsize sz chunk_size = Inr ?rs"
    using assms by (simp add: read_stream_unordered_ranges_def byte_ranges_eq)
  moreover have "?rs = expected_ranges s chunk_size"
    using assms(1) by (rule ranges_from_expected)
  moreover have "concat (map (\<lambda>(a, b). [a..b - 1]) ?rs) = [0..s - 1]"
    using assms(1) by (rule ranges_from_cover)
  moreover have "\<forall>r \<in> set (butlast ?rs). snd r - fst r = chunk_size"
    using assms(1) ranges_from_butlast by blast
  moreover have "s = 0 \<longrightarrow> ?rs = []"
    using assms(1) by (simp add: ranges_from_Nil)
  ultimately show ?thesis by blast
qed

theorem cloud_read_stream_byte_ranges_witness:
  "cloud_read_stream_ranges 10 None 3 = Inr [(0, 3), (3, 6), (6, 9), (9, 10)]
   \<and> read_stream_unordered_ranges 7 (Some 10) 3 = Inr [(0, 3), (3, 6), (6, 9), (9, 10)]"
proof -
  have e: "expected_ranges 10 3 = [(0, 3), (3, 6), (6, 9), (9, 10)]"
    by (simp add: expected_ranges_def upt_conv_Cons)
  from cloud_read_stream_byte_ranges[where chunk_size = 3 and s = 10 and sz = None and getsize = 10]
  have 1: "cloud_read_stream_ranges 10 None 3 = Inr (expected_ranges 10 3)" by auto
  from cloud_read_stream_byte_ranges[where chunk_size = 3 and s = 10 and sz = "Some 10" and getsize = 7]
  have 2: "read_stream_unordered_ranges 7 (Some 10) 3 = Inr (expected_ranges 10 3)" by auto
  show ?thesis using 1 2 e by simp
qed

text \<open>
  Claim C10.  Every byte range \<open>(start, end)\<close> produced by \<^verbatim>\<open>_cloud_read_stream\<close> or
  \<^verbatim>\<open>read_stream_unordered\<close> (size \<open>s \<ge> 0\<close>, chunk size \<open>c > 0\<close>) has
  \<open>0 \<le> start < end\<close>; both components are integers, so \<^verbatim>\<open>_byte_range_to_str\<close> takes
  its first branch and returns \<^verbatim>\<open>bytes={start}-{end-1}\<close>, the inclusive form of the
  non-empty half-open range, and does not raise \<open>AssertionError\<close>.
\<close>

theorem stream_ranges_header:
  assumes "0 < chunk_size" and "s = (case sz of None \<Rightarrow> getsize | Some n \<Rightarrow> n)" and "0 \<le> s"
    and "cloud_read_stream_ranges getsize sz chunk_size = Inr rs
         \<or> read_stream_unordered_ranges getsize sz chunk_size = Inr rs"
    and "(start, end') \<in> set rs"
  shows "0 \<le> start \<and> start < end' \<and> end' \<le> s
         \<and> read_byte_range_header (start, end')
             = Inr (''bytes='' @ str_int start @ ''-'' @ str_int (end' - 1))
         \<and> start \<le> end' - 1
         \<and> read_byte_range_header (start, end') \<noteq> Inl AssertionError"
proof -
  have "rs = ranges_from 0 s chunk_size"
    using assms(1,2,4)
    by (auto simp: cloud_read_stream_ranges_def read_stream_unordered_ranges_def byte_ranges_eq)
  with assms(5) have "(start, end') \<in> set (ranges_from 0 s chunk_size)" by simp
  from ranges_from_nonempty[OF assms(1) this]
  have "0 \<le> start \<and> start < end' \<and> end' \<le> s" by simp
  then show ?thesis by (simp add: byte_range_to_str_both)
qed

theorem stream_ranges_header_witness:
  "read_byte_range_header (9, 10) = Inr ''bytes=9-9''"
proof -
  have rs: "cloud_read_stream_ranges 10 None 3 = Inr [(0, 3), (3, 6), (6, 9), (9, 10)]"
    by (simp add: cloud_read_stream_ranges_def byte_ranges_def py_range_def range_up.simps)
  have "read_byte_range_header (9, 10) = Inr (''bytes='' @ str_int 9 @ ''-'' @ str_int (10 - 1))"
    using stream_ranges_header[where chunk_size = 3 and s = 10 and sz = None and getsize = 10
        and rs = "[(0, 3), (3, 6), (6, 9), (9, 10)]" and start = 9 and end' = 10] rs
    by simp
  then show ?thesis by (simp add: str_int_def digits.simps)
qed

section \<open>delete.py: proofs\<close>

lemma yielded_paths_append: "yielded_paths (xs @ ys) = yielded_paths xs @ yielded_paths ys"
  by (induction xs rule: yielded_paths.induct) simp_all

lemma execute_trace:
  "execute_reponseless env r w = (res, w') \<Longrightarrow> trace w' = trace w @ [Request_sent r]"
  by (auto simp: execute_reponseless_def log_def Let_def split: prod.splits if_splits option.splits)

lemma remove_trace:
  "remove env p w = (res, w') \<Longrightarrow> \<exists>rs. trace w' = trace w @ map Request_sent rs"
proof (cases p)
  case (AzurePath a c bl)
  assume "remove env p w = (res, w')"
  with AzurePath show ?thesis
    by (auto simp: azure_remove_def Let_def split: if_splits dest!: execute_trace intro: exI[of _ "[]"] exI[of _ "[x]" for x])
next
  case (GooglePath bu bl)
  assume "remove env p w = (res, w')"
  with GooglePath show ?thesis
    by (auto simp: google_remove_def Let_def split: if_splits dest!: execute_trace intro: exI[of _ "[]"] exI[of _ "[x]" for x])
next
  case (LocalPath f)
  assume "remove env p w = (res, w')"
  with LocalPath show ?thesis
    by (auto simp: local_remove_def Let_def split: prod.splits intro: exI[of _ "[]"])
next
  case (UnsupportedPath s)
  assume "remove env p w = (res, w')"
  with UnsupportedPath show ?thesis by (auto intro: exI[of _ "[]"])
qed

lemma yielded_paths_requests [simp]: "yielded_paths (map Request_sent rs) = []"
  by (induction rs) simp_all

lemma run_snoc: "run env N (schedule @ [ch]) c = step env N ch (run env N schedule c)"
  by (simp add: run_def)

lemma run_Nil: "run env N [] c = c"
  by (simp add: run_def)

lemma run_Cons: "run env N (ch # schedule) c = run env N schedule (step env N ch c)"
  by (simp add: run_def)

lemma snoc_split_Yielded:
  assumes "tr @ [ev] = tr1 @ Yielded p # tr2"
  shows "(tr2 = [] \<and> tr1 = tr \<and> ev = Yielded p) \<or> (\<exists>tr2'. tr = tr1 @ Yielded p # tr2' \<and> tr2 = tr2' @ [ev])"
proof (cases tr2 rule: rev_cases)
  case Nil
  with assms show ?thesis by simp
next
  case (snoc ys y)
  with assms have "tr @ [ev] = (tr1 @ Yielded p # ys) @ [y]" by simp
  then have "tr = tr1 @ Yielded p # ys" "ev = y" by simp_all
  with snoc show ?thesis by simp
qed

lemma ordered_snoc_other:
  assumes "\<forall>tr1 p tr2. tr = tr1 @ Yielded p # tr2 \<longrightarrow> Remove_called p \<in> set tr1"
    and "\<And>p. ev = Yielded p \<Longrightarrow> Remove_called p \<in> set tr"
  shows "\<forall>tr1 p tr2. tr @ [ev] = tr1 @ Yielded p # tr2 \<longrightarrow> Remove_called p \<in> set tr1"
proof (intro allI impI)
  fix tr1 p tr2
  assume "tr @ [ev] = tr1 @ Yielded p # tr2"
  from snoc_split_Yielded[OF this] show "Remove_called p \<in> set tr1"
    using assms by blast
qed

lemma ordered_append_requests:
  assumes "\<forall>tr1 p tr2. tr = tr1 @ Yielded p # tr2 \<longrightarrow> Remove_called p \<in> set tr1"
  shows "\<forall>tr1 p tr2. tr @ map Request_sent rs = tr1 @ Yielded p # tr2 \<longrightarrow> Remove_called p \<in> set tr1"
proof (induction rs rule: rev_induct)
  case Nil
  with assms show ?case by simp
next
  case (snoc r rs)
  have "\<forall>tr1 p tr2. (tr @ map Request_sent rs) @ [Request_sent r] = tr1 @ Yielded p # tr2
          \<longrightarrow> Remove_called p \<in> set tr1"
    by (rule ordered_snoc_other[OF snoc]) simp
  then show ?case by simp
qed

lemma step_Start_run_inv:
  assumes "run_inv env entries c"
  shows "run_inv env entries (step env N Start c)"
proof (cases "failure c = None \<and> pending c \<noteq> [] \<and> length (running c) < N")
  case False
  then have "step env N Start c = c" by (auto split: list.splits)
  with assms show ?thesis by simp
next
  case True
  then obtain entry rest where p: "pending c = entry # rest" by (cases "pending c") auto
  let ?c' = "c\<lparr>pending := rest, running := running c @ [entry],
               world := log (Remove_called entry) (world c), subpath_exists := True\<rparr>"
  have s: "step env N Start c = ?c'" using True p by simp
  have tr: "trace (world ?c') = trace (world c) @ [Remove_called entry]" by (simp add: log_def)
  have ord: "\<forall>tr1 q tr2. trace (world ?c') = tr1 @ Yielded q # tr2 \<longrightarrow> Remove_called q \<in> set tr1"
    unfolding tr by (rule ordered_snoc_other) (use assms in \<open>simp_all add: run_inv_def\<close>)
  show ?thesis
    unfolding s run_inv_def
    apply (intro conjI)
    subgoal using assms True p by (simp add: run_inv_def log_def yielded_paths_append)
    subgoal using assms p by (simp add: run_inv_def)
    subgoal using assms p by (simp add: run_inv_def)
    subgoal using assms by (simp add: run_inv_def log_def)
    subgoal using assms by (auto simp: run_inv_def log_def)
    subgoal using ord .
    subgoal by simp
    subgoal using True by simp
    done
qed

lemma mset_take_drop_nth:
  "i < length xs \<Longrightarrow> mset (take i xs @ drop (Suc i) xs) + {#xs ! i#} = mset xs"
  by (metis add.commute add_mset_add_single append_take_drop_id Cons_nth_drop_Suc mset.simps(2) union_code union_mset_add_mset_right mset_append)

lemma mset_move:
  fixes E :: "'a multiset"
  assumes "Y' = Y + {#e#}" and "R' + {#e#} = R" and "Y + R + P = E"
  shows "Y' + R' + P = E"
proof -
  have "Y' + R' + P = Y + (R' + {#e#}) + P" unfolding assms(1) by (simp add: ac_simps)
  also have "\<dots> = E" unfolding assms(2) by (rule assms(3))
  finally show ?thesis .
qed

lemma step_Finish_run_inv:
  assumes "run_inv env entries c"
  shows "run_inv env entries (step env N (Finish i) c)"
proof (cases "failure c = None \<and> i < length (running c)")
  case False
  then have "step env N (Finish i) c = c" by auto
  with assms show ?thesis by simp
next
  case True
  define entry where "entry = running c ! i"
  obtain res w' where r: "remove env entry (world c) = (res, w')" by (cases "remove env entry (world c)")
  from remove_trace[OF r] obtain rs where tr: "trace w' = trace (world c) @ map Request_sent rs" ..
  have mem: "entry \<in> set (running c)" using True by (simp add: entry_def)
  have called: "Remove_called entry \<in> set (trace (world c))"
    using assms mem by (simp add: run_inv_def)
  have msets: "mset (yielded_paths (trace (world c))) + mset (running c) + mset (pending c) = mset entries"
    using assms True by (simp add: run_inv_def)
  have in_entries: "entry \<in> set entries"
  proof -
    have "entry \<in># mset (running c)" using mem by simp
    then have "entry \<in># mset entries" unfolding msets[symmetric] by simp
    then show ?thesis by simp
  qed
  have ord0: "\<forall>tr1 p tr2. trace w' = tr1 @ Yielded p # tr2 \<longrightarrow> Remove_called p \<in> set tr1"
    unfolding tr by (rule ordered_append_requests) (use assms in \<open>simp add: run_inv_def\<close>)
  have flag: "subpath_exists c"
  proof -
    have "length (running c) > 0" using mem by (cases "running c") auto
    moreover have "length (yielded_paths (trace (world c))) + length (running c) + length (pending c)
        = length entries"
      using arg_cong[OF msets, of size] by simp
    ultimately have "length (pending c) < length entries" by linarith
    then show ?thesis using assms by (simp add: run_inv_def)
  qed
  show ?thesis
  proof (cases res)
    case (Inl exc)
    let ?c' = "c\<lparr>running := [], world := w', failure := Some exc\<rparr>"
    have s: "step env N (Finish i) c = ?c'"
      using True r Inl by (simp add: entry_def Let_def)
    show ?thesis
      unfolding s run_inv_def
      apply (intro conjI)
      subgoal by simp
      subgoal using assms by (simp add: run_inv_def)
      subgoal using assms by (simp add: run_inv_def)
      subgoal using assms tr by (auto simp: run_inv_def)
      subgoal by simp
      subgoal using ord0 by simp
      subgoal using flag by simp
      subgoal using flag in_entries r Inl by auto
      done
  next
    case (Inr u)
    let ?c' = "c\<lparr>running := take i (running c) @ drop (Suc i) (running c), world := log (Yielded entry) w'\<rparr>"
    have s: "step env N (Finish i) c = ?c'"
      using True r Inr by (simp add: entry_def Let_def)
    have tr': "trace (world ?c') = trace w' @ [Yielded entry]" by (simp add: log_def)
    have ord: "\<forall>tr1 p tr2. trace (world ?c') = tr1 @ Yielded p # tr2 \<longrightarrow> Remove_called p \<in> set tr1"
      unfolding tr' by (rule ordered_snoc_other[OF ord0]) (use called tr in simp)
    have sub: "set (take i (running c) @ drop (Suc i) (running c)) \<subseteq> set (running c)"
      by (auto dest: in_set_takeD in_set_dropD)
    have m: "mset (yielded_paths (trace (world ?c'))) + mset (running ?c') + mset (pending ?c') = mset entries"
    proof -
      have y: "mset (yielded_paths (trace (world ?c'))) = mset (yielded_paths (trace (world c))) + {#entry#}"
        by (simp add: log_def tr yielded_paths_append)
      have r: "mset (running ?c') + {#entry#} = mset (running c)"
        using mset_take_drop_nth[of i "running c"] True by (simp add: entry_def)
      have pe: "pending ?c' = pending c" by simp
      show ?thesis unfolding pe by (rule mset_move[OF y r msets])
    qed
    show ?thesis
      unfolding s run_inv_def
      apply (intro conjI)
      subgoal using m by simp
      subgoal using assms by (simp add: run_inv_def)
      subgoal using assms by (simp add: run_inv_def)
      subgoal using assms tr by (auto simp: run_inv_def log_def)
      subgoal using assms sub tr by (auto simp: run_inv_def log_def)
      subgoal using ord .
      subgoal using flag by simp
      subgoal using True by simp
      done
  qed
qed

lemma step_run_inv: "run_inv env entries c \<Longrightarrow> run_inv env entries (step env N ch c)"
  by (cases ch) (simp_all only: step_Start_run_inv step_Finish_run_inv)

lemma init_run_inv: "run_inv env entries (init entries b)"
  by (simp add: run_inv_def init_def)

lemma run_run_inv: "run_inv env entries (run env N schedule (init entries b))"
  by (induction schedule rule: rev_induct) (simp_all add: run_Nil run_snoc init_run_inv step_run_inv)

lemma step_idle: "pending c = [] \<Longrightarrow> running c = [] \<Longrightarrow> step env N ch c = c"
  by (cases ch) simp_all

lemma run_idle: "pending c = [] \<Longrightarrow> running c = [] \<Longrightarrow> run env N schedule c = c"
  by (induction schedule) (simp_all add: run_Nil run_Cons step_idle)

lemma execute_404:
  assumes "fst (respond env r (backend w)) = 404"
    and "404 \<notin> set (success_codes r)"
    and "map_of (failure_exceptions r) 404 = Some exc"
  shows "fst (execute_reponseless env r w) = Inl exc"
    and "trace (snd (execute_reponseless env r w)) = trace w @ [Request_sent r]"
  using assms by (auto simp: execute_reponseless_def log_def Let_def split: prod.splits)











lemma rmtree_iterator_cases:
  assumes "rmtree_iterator env N schedule path b = Some out"
    and "entries = listtree env (ensure_directory_like env path) b"
    and "c = run env N schedule (init entries b)"
  shows "finished c"
    and "yielded out = yielded_paths (trace (world c))"
    and "failure c = Some exc \<Longrightarrow> raised out = Some exc \<and> final out = world c"
    and "failure c = None \<Longrightarrow> subpath_exists c \<Longrightarrow> raised out = None \<and> final out = world c"
    and "failure c = None \<Longrightarrow> \<not> subpath_exists c \<Longrightarrow>
           raised out \<noteq> None \<and> (\<exists>p. trace (final out) = trace (world c) @ [Isfile_called p])"
  using assms
  by (auto simp: rmtree_iterator_def Let_def log_def split: if_splits option.splits)

lemma run_invD:
  assumes "run_inv env entries c"
  shows "failure c = None \<Longrightarrow>
           mset (yielded_paths (trace (world c))) + mset (running c) + mset (pending c) = mset entries"
    and "subpath_exists c \<longleftrightarrow> length (pending c) < length entries"
    and "Isfile_called p \<notin> set (trace (world c))"
    and "trace (world c) = tr1 @ Yielded p # tr2 \<Longrightarrow> Remove_called p \<in> set tr1"
    and "yielded_paths (trace (world c)) \<noteq> [] \<Longrightarrow> subpath_exists c"
    and "failure c = Some exc \<Longrightarrow> subpath_exists c"
    and "failure c = Some exc \<Longrightarrow> \<exists>entry \<in> set entries. \<exists>w w'. remove env entry w = (Inl exc, w')"
  using assms unfolding run_inv_def by blast+

lemma finished_run_inv_flag:
  assumes "run_inv env entries c" "finished c" "entries \<noteq> []"
  shows "subpath_exists c"
proof (cases "failure c")
  case None
  with assms(2) have "pending c = []" by (simp add: finished_def)
  with assms(3) show ?thesis by (simp add: run_invD(2)[OF assms(1)])
next
  case (Some exc)
  then show ?thesis by (rule run_invD(6)[OF assms(1)])
qed


lemma rmtree_iterator_empty:
  assumes "listtree env (ensure_directory_like env path) b = []"
  shows "rmtree_iterator env N schedule path b
     = Some \<lparr>yielded = [],
             raised = Some (if isfile env path b then NotADirectoryError path else FileNotFoundError (Some path)),
             final = \<lparr>backend = b, trace = [Isfile_called path]\<rparr>\<rparr>"
proof -
  have c: "run env N schedule (init [] b) = init [] b"
    by (rule run_idle) (simp_all add: init_def)
  show ?thesis
    unfolding rmtree_iterator_def Let_def assms c
    by (simp add: init_def finished_def log_def)
qed




lemma remove_cloud_raises:
  assumes k: "keeps_codes (azurify_request env)" "keeps_codes (googlify_request env)"
    and c: "is_cloud entry" and r: "remove env entry w = (Inl exc, w')"
  shows "exc = IsADirectoryError \<or> exc = FileNotFoundError None \<or> (\<exists>status. exc = RequestFailure status)"
proof -
  have ex: "exc = FileNotFoundError None \<or> (\<exists>status. exc = RequestFailure status)"
    if "execute_reponseless env q w = (Inl exc, w')" "failure_exceptions q = [(404, FileNotFoundError None)]" for q
    using that
    by (auto simp: execute_reponseless_def Let_def split: prod.splits if_splits option.splits)
  show ?thesis
  proof (cases entry)
    case (AzurePath account container blob)
    have "failure_exceptions (azurify_request env (azure_delete_request env entry)) = [(404, FileNotFoundError None)]"
      using k(1) by (simp add: keeps_codes_def azure_delete_request_def)
    with r ex show ?thesis
      by (auto simp: AzurePath azure_remove_def Let_def split: if_splits)
  next
    case (GooglePath bucket blob)
    have "failure_exceptions (googlify_request env (google_delete_request env entry)) = [(404, FileNotFoundError None)]"
      using k(2) by (simp add: keeps_codes_def google_delete_request_def)
    with r ex show ?thesis
      by (auto simp: GooglePath google_remove_def Let_def split: if_splits)
  next
    case (LocalPath f)
    with c show ?thesis by simp
  next
    case (UnsupportedPath s)
    with c show ?thesis by simp
  qed
qed

section \<open>The small object store: proofs\<close>




lemma store_listing_d: "listtree store (ensure_directory_like store (GooglePath ''bk'' ''d'')) bucket = tree_d"
  by (simp add: store_def store_directory_like_def bucket_def tree_d_def)

lemma tree_d_distinct: "distinct tree_d" "tree_d \<noteq> []"
  by (simp_all add: tree_d_def)

lemma store_keeps_codes: "keeps_codes (azurify_request store)" "keeps_codes (googlify_request store)"
  by (simp_all add: keeps_codes_def store_def)



lemma tree_d_cloud: "\<forall>entry \<in> set tree_d. is_cloud entry"
  by (simp add: tree_d_def)



lemma store_run_yields:
  "map_option yielded (rmtree_iterator store 2 (sequential 3) (GooglePath ''bk'' ''d'') bucket) = Some tree_d"
  by code_simp

section \<open>delete.py: the claims\<close>

text \<open>
  Claim C8.  For an Azure or Google path that is directory-like, \<^verbatim>\<open>remove\<close> raises
  \<open>IsADirectoryError\<close> and leaves the world as it was: no request is sent, the backend
  is not touched.  For a cloud path that is not directory-like and to whose \<^verbatim>\<open>DELETE\<close>
  request the backend answers 404 (the blob is absent), \<^verbatim>\<open>remove\<close> raises
  \<open>FileNotFoundError\<close>, the entry of the request's failure table, after sending that one
  request; here the authentication wrappers keep the status-code tables of the request.
\<close>

theorem remove_cloud_errors:
  assumes "is_cloud p"
  shows "(is_directory_like env p \<longrightarrow> remove env p w = (Inl IsADirectoryError, w))
       \<and> (\<not> is_directory_like env p
            \<and> keeps_codes (azurify_request env) \<and> keeps_codes (googlify_request env)
            \<and> fst (respond env (delete_request env p) (backend w)) = 404
          \<longrightarrow> fst (remove env p w) = Inl (FileNotFoundError None)
            \<and> trace (snd (remove env p w)) = trace w @ [Request_sent (delete_request env p)])"
proof (cases p)
  case (AzurePath account container blob)
  let ?r = "azurify_request env (azure_delete_request env p)"
  have "keeps_codes (azurify_request env) \<Longrightarrow>
          404 \<notin> set (success_codes ?r) \<and> map_of (failure_exceptions ?r) 404 = Some (FileNotFoundError None)"
    by (simp add: keeps_codes_def azure_delete_request_def)
  then show ?thesis
    using AzurePath execute_404[of env ?r w "FileNotFoundError None"]
    by (simp add: azure_remove_def Let_def)
next
  case (GooglePath bucket blob)
  let ?r = "googlify_request env (google_delete_request env p)"
  have "keeps_codes (googlify_request env) \<Longrightarrow>
          404 \<notin> set (success_codes ?r) \<and> map_of (failure_exceptions ?r) 404 = Some (FileNotFoundError None)"
    by (simp add: keeps_codes_def google_delete_request_def)
  then show ?thesis
    using GooglePath execute_404[of env ?r w "FileNotFoundError None"]
    by (simp add: google_remove_def Let_def)
next
  case (LocalPath f)
  with assms show ?thesis by simp
next
  case (UnsupportedPath s)
  with assms show ?thesis by simp
qed

theorem remove_cloud_errors_witness:
  "remove store (AzurePath ''acc'' ''ct'' ''d/'') \<lparr>backend = bucket, trace = []\<rparr>
     = (Inl IsADirectoryError, \<lparr>backend = bucket, trace = []\<rparr>)
   \<and> fst (remove store (GooglePath ''bk'' ''nope'') \<lparr>backend = bucket, trace = []\<rparr>)
     = Inl (FileNotFoundError None)"
proof -
  let ?w = "\<lparr>backend = bucket, trace = []\<rparr>"
  have d: "is_directory_like store (AzurePath ''acc'' ''ct'' ''d/'')"
    by (simp add: store_def store_directory_like_def)
  have n: "\<not> is_directory_like store (GooglePath ''bk'' ''nope'')"
    by (simp add: store_def store_directory_like_def)
  have r: "fst (respond store (delete_request store (GooglePath ''bk'' ''nope'')) (backend ?w)) = 404"
    by (simp add: store_def store_respond_def google_delete_request_def bucket_def tree_d_def)
  have 1: "remove store (AzurePath ''acc'' ''ct'' ''d/'') ?w = (Inl IsADirectoryError, ?w)"
    using remove_cloud_errors[of "AzurePath ''acc'' ''ct'' ''d/''" store ?w] d by simp
  have 2: "fst (remove store (GooglePath ''bk'' ''nope'') ?w) = Inl (FileNotFoundError None)"
    using remove_cloud_errors[of "GooglePath ''bk'' ''nope''" store ?w] n r store_keeps_codes by simp
  from 1 2 show ?thesis by simp
qed

text \<open>
  Claim C4.  \<^verbatim>\<open>rmtree\<close> of a cloud path under which the listing finds nothing: when the
  path is not a file either (a wholly absent path) it raises \<^verbatim>\<open>FileNotFoundError(path)\<close>,
  when the path is a file it raises \<^verbatim>\<open>NotADirectoryError(path)\<close>.  In both cases
  \<^verbatim>\<open>rmtree_iterator\<close> yields no path before the error, whatever the schedule and the
  number of slots, and all it does is the one call of \<^verbatim>\<open>isfile\<close>.
\<close>

theorem rmtree_nothing_listed:
  assumes "is_cloud path" and "listtree env (ensure_directory_like env path) b = []"
  shows "(\<not> isfile env path b \<longrightarrow>
            rmtree_iterator env N schedule path b
              = Some \<lparr>yielded = [], raised = Some (FileNotFoundError (Some path)),
                      final = \<lparr>backend = b, trace = [Isfile_called path]\<rparr>\<rparr>
          \<and> rmtree env N schedule path b
              = Some (Some (FileNotFoundError (Some path)), \<lparr>backend = b, trace = [Isfile_called path]\<rparr>))
       \<and> (isfile env path b \<longrightarrow>
            rmtree_iterator env N schedule path b
              = Some \<lparr>yielded = [], raised = Some (NotADirectoryError path),
                      final = \<lparr>backend = b, trace = [Isfile_called path]\<rparr>\<rparr>
          \<and> rmtree env N schedule path b
              = Some (Some (NotADirectoryError path), \<lparr>backend = b, trace = [Isfile_called path]\<rparr>))"
proof -
  have c: "run env N schedule (init [] b) = init [] b"
    by (rule run_idle) (simp_all add: init_def)
  have it: "rmtree_iterator env N schedule path b
     = Some \<lparr>yielded = [],
             raised = Some (if isfile env path b then NotADirectoryError path else FileNotFoundError (Some path)),
             final = \<lparr>backend = b, trace = [Isfile_called path]\<rparr>\<rparr>"
    unfolding rmtree_iterator_def Let_def assms(2) c
    by (simp add: init_def finished_def log_def)
  show ?thesis
    using assms(1) it by (cases path) simp_all
qed

theorem rmtree_nothing_listed_witness:
  "rmtree store 2 [] (GooglePath ''bk'' ''zz'') bucket
     = Some (Some (FileNotFoundError (Some (GooglePath ''bk'' ''zz''))),
             \<lparr>backend = bucket, trace = [Isfile_called (GooglePath ''bk'' ''zz'')]\<rparr>)
   \<and> rmtree store 2 [] (GooglePath ''bk'' ''f'') bucket
     = Some (Some (NotADirectoryError (GooglePath ''bk'' ''f'')),
             \<lparr>backend = bucket, trace = [Isfile_called (GooglePath ''bk'' ''f'')]\<rparr>)"
proof -
  have l1: "listtree store (ensure_directory_like store (GooglePath ''bk'' ''zz'')) bucket = []"
    by (simp add: store_def store_directory_like_def bucket_def tree_d_def)
  have l2: "listtree store (ensure_directory_like store (GooglePath ''bk'' ''f'')) bucket = []"
    by (simp add: store_def store_directory_like_def bucket_def tree_d_def)
  have f1: "\<not> isfile store (GooglePath ''bk'' ''zz'') bucket"
    by (simp add: store_def bucket_def tree_d_def)
  have f2: "isfile store (GooglePath ''bk'' ''f'') bucket"
    by (simp add: store_def bucket_def tree_d_def)
  show ?thesis
    using rmtree_nothing_listed[of "GooglePath ''bk'' ''zz''" store bucket 2 "[]", OF _ l1]
      rmtree_nothing_listed[of "GooglePath ''bk'' ''f''" store bucket 2 "[]", OF _ l2] f1 f2
    by simp
qed




text \<open>
  Claim C7, as the code behaves.  On every run on which \<^verbatim>\<open>rmtree_iterator\<close> returns,
  \<^verbatim>\<open>isfile\<close> is called if and only if the listing produced no entry.  Whenever at
  least one entry has been yielded (deleted), \<^verbatim>\<open>isfile\<close> is not called and neither
  error of the secondary check, \<^verbatim>\<open>FileNotFoundError(path)\<close> or
  \<^verbatim>\<open>NotADirectoryError(path)\<close>, is raised; what can still be raised is the error of
  \<^verbatim>\<open>remove\<close> on another listed entry: \<open>IsADirectoryError\<close> for a directory-like
  entry, \<^verbatim>\<open>FileNotFoundError()\<close> for a 404, the request's failure for another status.
  The listed entries are cloud paths and authentication keeps the status-code tables.
\<close>

theorem rmtree_secondary_check:
  assumes "rmtree_iterator env N schedule path b = Some out"
    and "entries = listtree env (ensure_directory_like env path) b"
  shows "((\<exists>p. Isfile_called p \<in> set (trace (final out))) \<longleftrightarrow> entries = [])
       \<and> (yielded out \<noteq> [] \<longrightarrow> (\<forall>p. Isfile_called p \<notin> set (trace (final out))))
       \<and> (yielded out \<noteq> [] \<and> (\<forall>entry \<in> set entries. is_cloud entry)
            \<and> keeps_codes (azurify_request env) \<and> keeps_codes (googlify_request env)
          \<longrightarrow> (\<forall>p. raised out \<noteq> Some (FileNotFoundError (Some p))
                   \<and> raised out \<noteq> Some (NotADirectoryError p))
            \<and> (raised out = None \<or> raised out = Some IsADirectoryError
                \<or> raised out = Some (FileNotFoundError None)
                \<or> (\<exists>status. raised out = Some (RequestFailure status))))"
proof -
  define c where "c = run env N schedule (init entries b)"
  have inv: "run_inv env entries c" unfolding c_def by (rule run_run_inv)
  note cs = rmtree_iterator_cases[OF assms c_def]
  have no_check: "\<forall>p. Isfile_called p \<notin> set (trace (world c))"
    using run_invD(3)[OF inv] by blast
  have with_isfile: "failure c = None \<Longrightarrow> \<not> subpath_exists c \<Longrightarrow> \<exists>p. Isfile_called p \<in> set (trace (final out))"
    using cs(5) by auto
  have no_isfile: "failure c \<noteq> None \<or> subpath_exists c \<Longrightarrow> final out = world c"
    using cs(3,4) by (cases "failure c") auto
  have empty: "entries = [] \<Longrightarrow> failure c = None \<and> \<not> subpath_exists c"
  proof -
    assume e: "entries = []"
    have "run env N schedule (init [] b) = init [] b" by (rule run_idle) (simp_all add: init_def)
    then show ?thesis by (simp add: c_def e init_def)
  qed
  have nonempty: "entries \<noteq> [] \<Longrightarrow> failure c \<noteq> None \<or> subpath_exists c"
    using finished_run_inv_flag[OF inv cs(1)] by blast
  have 1: "(\<exists>p. Isfile_called p \<in> set (trace (final out))) \<longleftrightarrow> entries = []"
    using empty with_isfile nonempty no_isfile no_check by metis
  have flag: "yielded out \<noteq> [] \<Longrightarrow> subpath_exists c"
    using run_invD(5)[OF inv] cs(2) by simp
  have 2: "yielded out \<noteq> [] \<Longrightarrow> \<forall>p. Isfile_called p \<notin> set (trace (final out))"
    using flag no_isfile no_check by simp
  have 3: "raised out = None \<or> raised out = Some IsADirectoryError
        \<or> raised out = Some (FileNotFoundError None)
        \<or> (\<exists>status. raised out = Some (RequestFailure status))"
    if y: "yielded out \<noteq> []" and cl: "\<forall>entry \<in> set entries. is_cloud entry"
      and k: "keeps_codes (azurify_request env)" "keeps_codes (googlify_request env)"
  proof (cases "failure c")
    case None
    with cs(4) flag[OF y] show ?thesis by simp
  next
    case (Some exc)
    from run_invD(7)[OF inv Some] obtain entry w w' where
      "entry \<in> set entries" "remove env entry w = (Inl exc, w')" by blast
    with cl have "exc = IsADirectoryError \<or> exc = FileNotFoundError None
        \<or> (\<exists>status. exc = RequestFailure status)"
      using remove_cloud_raises[OF k] by blast
    moreover have "raised out = Some exc" using cs(3)[OF Some] by simp
    ultimately show ?thesis by auto
  qed
  have 4: "raised out \<noteq> Some (FileNotFoundError (Some p)) \<and> raised out \<noteq> Some (NotADirectoryError p)"
    if "yielded out \<noteq> []" "\<forall>entry \<in> set entries. is_cloud entry"
      "keeps_codes (azurify_request env)" "keeps_codes (googlify_request env)" for p
    using 3[OF that] by auto
  from 1 2 3 4 show ?thesis by blast
qed

theorem rmtree_secondary_check_witness:
  "(\<exists>out. rmtree_iterator store 2 (sequential 3) (GooglePath ''bk'' ''d'') bucket = Some out
       \<and> (\<forall>p. Isfile_called p \<notin> set (trace (final out)))
       \<and> (\<forall>p. raised out \<noteq> Some (FileNotFoundError (Some p))
              \<and> raised out \<noteq> Some (NotADirectoryError p)))
   \<and> Isfile_called (GooglePath ''bk'' ''zz'')
       \<in> set (trace (final (the (rmtree_iterator store 2 [] (GooglePath ''bk'' ''zz'') bucket))))"
proof -
  from store_run_yields obtain out where
    out: "rmtree_iterator store 2 (sequential 3) (GooglePath ''bk'' ''d'') bucket = Some out"
    and y: "yielded out = tree_d" by auto
  have ne: "yielded out \<noteq> []" using y tree_d_distinct(2) by simp
  note t = rmtree_secondary_check[OF out store_listing_d[symmetric]]
  have 1: "\<forall>p. Isfile_called p \<notin> set (trace (final out))"
    using t ne by blast
  have 2: "\<forall>p. raised out \<noteq> Some (FileNotFoundError (Some p))
              \<and> raised out \<noteq> Some (NotADirectoryError p)"
    using t ne tree_d_cloud store_keeps_codes by blast
  have e: "listtree store (ensure_directory_like store (GooglePath ''bk'' ''zz'')) bucket = []"
    by (simp add: store_def store_directory_like_def bucket_def tree_d_def)
  note z = rmtree_iterator_empty[OF e, of 2 "[]"]
  from rmtree_secondary_check[OF z e[symmetric]]
  have "\<exists>p. Isfile_called p \<in> set (trace (final (the (rmtree_iterator store 2 [] (GooglePath ''bk'' ''zz'') bucket))))"
    unfolding z by simp
  then have 3: "Isfile_called (GooglePath ''bk'' ''zz'')
       \<in> set (trace (final (the (rmtree_iterator store 2 [] (GooglePath ''bk'' ''zz'') bucket))))"
    unfolding z by simp
  from out 1 2 3 show ?thesis by blast
qed

text \<open>
  A not-found error after a deletion.  The listing shows \<^verbatim>\<open>d/a\<close> and \<^verbatim>\<open>d/ghost\<close>; the
  store holds \<^verbatim>\<open>d/a\<close> only.  \<^verbatim>\<open>d/a\<close> is deleted and yielded, then the
  \<^verbatim>\<open>DELETE\<close> of \<^verbatim>\<open>d/ghost\<close> is answered 404 and \<^verbatim>\<open>FileNotFoundError()\<close> is raised.
\<close>

theorem stale_listing_counterexample:
  "rmtree_iterator store_stale 1 (sequential 2) (GooglePath ''bk'' ''d'') [GooglePath ''bk'' ''d/a'']
     = Some \<lparr>yielded = [GooglePath ''bk'' ''d/a''], raised = Some (FileNotFoundError None),
             final = \<lparr>backend = [],
                      trace = [Remove_called (GooglePath ''bk'' ''d/a''),
                               Request_sent (delete_request store (GooglePath ''bk'' ''d/a'')),
                               Yielded (GooglePath ''bk'' ''d/a''),
                               Remove_called (GooglePath ''bk'' ''d/ghost''),
                               Request_sent (delete_request store (GooglePath ''bk'' ''d/ghost''))]\<rparr>\<rparr>"
  by code_simp

section \<open>syncing: proofs\<close>

lemma ascending_Cons: "ascending (e # es) \<longleftrightarrow> (\<forall>x \<in> set es. relpath e < relpath x) \<and> ascending es"
  by (auto simp: ascending_def)

lemma ascending_Nil: "ascending []"
  by (simp add: ascending_def)

lemma ascending_sort_key:
  assumes "distinct (map relpath es)"
  shows "ascending (sort_key relpath es)"
proof -
  have "sorted (map relpath (sort_key relpath es))" by (rule sorted_sort_key)
  moreover have "distinct (map relpath (sort_key relpath es))"
    using assms by (metis distinct_map distinct_sort set_sort inj_on_cong)
  ultimately show ?thesis
    unfolding ascending_def by (simp add: strict_sorted_iff)
qed

lemma merge_join_copy_iff:
  "ascending ss \<Longrightarrow> ascending ds \<Longrightarrow>
   CopyAction p sz \<in> set (merge_join changed delete ss ds) \<longleftrightarrow>
     (\<exists>s \<in> set ss. relpath s = p \<and> entry_size s = sz
        \<and> (\<forall>d \<in> set ds. relpath d = p \<longrightarrow> differs changed s d))"
proof (induction changed delete ss ds rule: merge_join.induct)
  case 1
  then show ?case by simp
next
  case (2 changed delete s ss)
  then show ?case by (auto simp: ascending_Cons)
next
  case (3 changed delete d ds)
  then show ?case by (cases delete) (simp_all add: ascending_Cons)
next
  case (4 changed delete s ss d ds)
  note a = "4.prems"[unfolded ascending_Cons]
  consider (lt) "relpath s < relpath d" | (gt) "relpath d < relpath s"
    | (eq) "relpath s = relpath d" by fastforce
  then show ?case
  proof cases
    case lt
    have ih: "CopyAction p sz \<in> set (merge_join changed delete ss (d # ds)) \<longleftrightarrow>
        (\<exists>s \<in> set ss. relpath s = p \<and> entry_size s = sz
           \<and> (\<forall>d \<in> set (d # ds). relpath d = p \<longrightarrow> differs changed s d))"
      using "4.IH"(1)[OF lt] a "4.prems"(2) by simp
    have nomatch: "\<forall>x \<in> set (d # ds). relpath x \<noteq> relpath s"
      using lt a by auto
    show ?thesis
      using lt ih nomatch by (simp only: merge_join.simps if_True set_simps) (auto simp del: merge_join.simps)
  next
    case gt
    then have ngt: "\<not> relpath s < relpath d" by simp
    have ih: "CopyAction p sz \<in> set (merge_join changed delete (s # ss) ds) \<longleftrightarrow>
        (\<exists>s \<in> set (s # ss). relpath s = p \<and> entry_size s = sz
           \<and> (\<forall>d \<in> set ds. relpath d = p \<longrightarrow> differs changed s d))"
      using "4.IH"(2)[OF ngt gt] "4.IH"(3)[OF ngt gt] a "4.prems"(1) by (cases delete) simp_all
    have nomatch: "\<forall>x \<in> set (s # ss). relpath x \<noteq> relpath d"
      using gt a by auto
    have mj: "merge_join changed delete (s # ss) (d # ds) =
        (if delete then DeleteAction (relpath d) # merge_join changed delete (s # ss) ds
         else merge_join changed delete (s # ss) ds)"
      using gt ngt by simp
    show ?thesis
      unfolding mj using gt ih nomatch by (cases delete) (auto simp del: merge_join.simps)
  next
    case eq
    then have n1: "\<not> relpath s < relpath d" and n2: "\<not> relpath d < relpath s" by simp_all
    have ih1: "differs changed s d \<Longrightarrow> CopyAction p sz \<in> set (merge_join changed delete ss ds) \<longleftrightarrow>
        (\<exists>s \<in> set ss. relpath s = p \<and> entry_size s = sz
           \<and> (\<forall>d \<in> set ds. relpath d = p \<longrightarrow> differs changed s d))"
      using "4.IH"(4)[OF n1 n2] a by simp
    have ih2: "\<not> differs changed s d \<Longrightarrow> CopyAction p sz \<in> set (merge_join changed delete ss ds) \<longleftrightarrow>
        (\<exists>s \<in> set ss. relpath s = p \<and> entry_size s = sz
           \<and> (\<forall>d \<in> set ds. relpath d = p \<longrightarrow> differs changed s d))"
      using "4.IH"(5)[OF n1 n2] a by simp
    have s_only: "\<forall>x \<in> set ds. relpath x \<noteq> relpath s" using eq a by auto
    have d_only: "\<forall>x \<in> set ss. relpath x \<noteq> relpath d" using eq a by auto
    show ?thesis
    proof (cases "differs changed s d")
      case True
      show ?thesis
        using n1 n2 True ih1[OF True] s_only d_only eq
        by (simp only: merge_join.simps if_True if_False set_simps) (auto simp del: merge_join.simps)
    next
      case False
      show ?thesis
        using n1 n2 False ih2[OF False] s_only d_only eq
        by (simp only: merge_join.simps if_True if_False set_simps) (auto simp del: merge_join.simps)
    qed
  qed
qed

lemma merge_join_delete_iff:
  "ascending ss \<Longrightarrow> ascending ds \<Longrightarrow>
   DeleteAction p \<in> set (merge_join changed delete ss ds) \<longleftrightarrow>
     delete \<and> p \<in> relpath ` set ds \<and> p \<notin> relpath ` set ss"
proof (induction changed delete ss ds rule: merge_join.induct)
  case 1
  then show ?case by simp
next
  case (2 changed delete s ss)
  then show ?case by (simp add: ascending_Cons)
next
  case (3 changed delete d ds)
  then show ?case by (cases delete) (auto simp: ascending_Cons)
next
  case (4 changed delete s ss d ds)
  note a = "4.prems"[unfolded ascending_Cons]
  consider (lt) "relpath s < relpath d" | (gt) "relpath d < relpath s"
    | (eq) "relpath s = relpath d" by fastforce
  then show ?case
  proof cases
    case lt
    have ih: "DeleteAction p \<in> set (merge_join changed delete ss (d # ds)) \<longleftrightarrow>
        delete \<and> p \<in> relpath ` set (d # ds) \<and> p \<notin> relpath ` set ss"
      using "4.IH"(1)[OF lt] a "4.prems"(2) by simp
    have nomatch: "relpath s \<notin> relpath ` set (d # ds)"
      using lt a by auto
    show ?thesis
      using lt ih nomatch by (simp only: merge_join.simps if_True set_simps) (auto simp del: merge_join.simps simp: image_iff)
  next
    case gt
    then have ngt: "\<not> relpath s < relpath d" by simp
    have ih: "DeleteAction p \<in> set (merge_join changed delete (s # ss) ds) \<longleftrightarrow>
        delete \<and> p \<in> relpath ` set ds \<and> p \<notin> relpath ` set (s # ss)"
      using "4.IH"(2)[OF ngt gt] "4.IH"(3)[OF ngt gt] a "4.prems"(1) by (cases delete) simp_all
    have nomatch: "relpath d \<notin> relpath ` set (s # ss)"
      using gt a by auto
    have mj: "merge_join changed delete (s # ss) (d # ds) =
        (if delete then DeleteAction (relpath d) # merge_join changed delete (s # ss) ds
         else merge_join changed delete (s # ss) ds)"
      using gt ngt by simp
    show ?thesis
      unfolding mj using gt ih nomatch by (cases delete) (auto simp del: merge_join.simps simp: image_iff)
  next
    case eq
    then have n1: "\<not> relpath s < relpath d" and n2: "\<not> relpath d < relpath s" by simp_all
    have ih: "DeleteAction p \<in> set (merge_join changed delete ss ds) \<longleftrightarrow>
        delete \<and> p \<in> relpath ` set ds \<and> p \<notin> relpath ` set ss"
      using "4.IH"(4)[OF n1 n2] "4.IH"(5)[OF n1 n2] a by (cases "differs changed s d") simp_all
    have d_fresh: "\<forall>x \<in> set ds. relpath x \<noteq> relpath d" using a by auto
    have s_fresh: "\<forall>x \<in> set ss. relpath x \<noteq> relpath s" using a by auto
    show ?thesis
      using n1 n2 ih eq d_fresh s_fresh
      by (simp only: merge_join.simps if_True if_False set_simps split: if_splits) (auto simp del: merge_join.simps simp: image_iff)
  qed
qed

lemma merge_join_paths:
  "a \<in> set (merge_join changed delete ss ds) \<Longrightarrow> action_relpath a \<in> relpath ` set ss \<union> relpath ` set ds"
  by (induction changed delete ss ds rule: merge_join.induct) (auto split: if_splits)

lemma merge_join_sorted:
  "ascending ss \<Longrightarrow> ascending ds \<Longrightarrow> sorted_wrt (<) (map action_relpath (merge_join changed delete ss ds))"
proof (induction changed delete ss ds rule: merge_join.induct)
  case 1
  then show ?case by simp
next
  case (2 changed delete s ss)
  then show ?case by (auto simp: ascending_Cons ascending_Nil dest!: merge_join_paths)
next
  case (3 changed delete d ds)
  then show ?case by (cases delete) (auto simp: ascending_Cons ascending_Nil dest!: merge_join_paths)
next
  case (4 changed delete s ss d ds)
  note a = "4.prems"[unfolded ascending_Cons]
  consider (lt) "relpath s < relpath d" | (gt) "relpath d < relpath s"
    | (eq) "relpath s = relpath d" by fastforce
  then show ?case
  proof cases
    case lt
    have ih: "sorted_wrt (<) (map action_relpath (merge_join changed delete ss (d # ds)))"
      using "4.IH"(1)[OF lt] a "4.prems"(2) by simp
    have "\<forall>x \<in> set (merge_join changed delete ss (d # ds)). relpath s < action_relpath x"
    proof
      fix x assume "x \<in> set (merge_join changed delete ss (d # ds))"
      from merge_join_paths[OF this] show "relpath s < action_relpath x"
        using lt a by auto
    qed
    with ih lt show ?thesis by (simp del: merge_join.simps add: merge_join.simps(4)[of changed delete s ss d ds])
  next
    case gt
    then have ngt: "\<not> relpath s < relpath d" by simp
    have ih: "sorted_wrt (<) (map action_relpath (merge_join changed delete (s # ss) ds))"
      using "4.IH"(2)[OF ngt gt] "4.IH"(3)[OF ngt gt] a "4.prems"(1) by (cases delete) simp_all
    have "\<forall>x \<in> set (merge_join changed delete (s # ss) ds). relpath d < action_relpath x"
    proof
      fix x assume "x \<in> set (merge_join changed delete (s # ss) ds)"
      from merge_join_paths[OF this] show "relpath d < action_relpath x"
        using gt a by auto
    qed
    then have above: "\<forall>x \<in> set (merge_join changed delete (s # ss) ds). relpath d < action_relpath x" .
    have mj: "merge_join changed delete (s # ss) (d # ds) =
        (if delete then DeleteAction (relpath d) # merge_join changed delete (s # ss) ds
         else merge_join changed delete (s # ss) ds)"
      using gt ngt by simp
    show ?thesis
      unfolding mj using ih above by (cases delete) (auto simp del: merge_join.simps)
  next
    case eq
    then have n1: "\<not> relpath s < relpath d" and n2: "\<not> relpath d < relpath s" by simp_all
    have ih: "sorted_wrt (<) (map action_relpath (merge_join changed delete ss ds))"
      using "4.IH"(4)[OF n1 n2] "4.IH"(5)[OF n1 n2] a by (cases "differs changed s d") simp_all
    have "\<forall>x \<in> set (merge_join changed delete ss ds). relpath s < action_relpath x"
    proof
      fix x assume "x \<in> set (merge_join changed delete ss ds)"
      from merge_join_paths[OF this] show "relpath s < action_relpath x"
        using eq a by auto
    qed
    with ih n1 n2 show ?thesis by (simp del: merge_join.simps add: merge_join.simps(4)[of changed delete s ss d ds])
  qed
qed

lemma sync_iterator_copy_iff:
  assumes "distinct (map relpath src)" and "distinct (map relpath dst)"
  shows "CopyAction p sz \<in> set (sync_iterator changed delete src dst) \<longleftrightarrow>
     (\<exists>s \<in> set src. relpath s = p \<and> entry_size s = sz
        \<and> (\<forall>d \<in> set dst. relpath d = p \<longrightarrow> differs changed s d))"
  unfolding sync_iterator_def
  using merge_join_copy_iff[OF ascending_sort_key[OF assms(1)] ascending_sort_key[OF assms(2)], of p sz]
  by simp

lemma sync_iterator_delete_iff:
  assumes "distinct (map relpath src)" and "distinct (map relpath dst)"
  shows "DeleteAction p \<in> set (sync_iterator changed delete src dst) \<longleftrightarrow>
     delete \<and> p \<in> relpath ` set dst \<and> p \<notin> relpath ` set src"
  unfolding sync_iterator_def
  using merge_join_delete_iff[OF ascending_sort_key[OF assms(1)] ascending_sort_key[OF assms(2)], of p]
  by simp

lemma sync_iterator_sorted:
  assumes "distinct (map relpath src)" and "distinct (map relpath dst)"
  shows "sorted_wrt (<) (map action_relpath (sync_iterator changed delete src dst))"
  unfolding sync_iterator_def
  by (rule merge_join_sorted[OF ascending_sort_key[OF assms(1)] ascending_sort_key[OF assms(2)]])

lemma sync_iterator_distinct:
  assumes "distinct (map relpath src)" and "distinct (map relpath dst)"
  shows "distinct (map action_relpath (sync_iterator changed delete src dst))"
  using sync_iterator_sorted[OF assms] by (simp add: strict_sorted_iff)

lemma tree_of_Some_iff:
  assumes "distinct (map relpath es)"
  shows "tree_of es p = Some (sz, t) \<longleftrightarrow> (\<exists>e \<in> set es. relpath e = p \<and> entry_size e = sz \<and> mtime e = t)"
proof -
  have d: "distinct (map fst (map (\<lambda>e. (relpath e, (entry_size e, mtime e))) es))"
    using assms by (simp add: comp_def)
  show ?thesis
    unfolding tree_of_def map_of_eq_Some_iff[OF d] by auto
qed

lemma tree_of_None_iff: "tree_of es p = None \<longleftrightarrow> p \<notin> relpath ` set es"
  by (simp add: tree_of_def map_of_eq_None_iff image_image)

lemma tree_of_entry:
  assumes "distinct (map relpath es)" and "e \<in> set es"
  shows "tree_of es (relpath e) = Some (entry_size e, mtime e)"
  using tree_of_Some_iff[OF assms(1)] assms(2) by blast

lemma apply_actions_Nil: "apply_actions stamp [] t = t"
  by (simp add: apply_actions_def)

lemma apply_actions_Cons:
  "apply_actions stamp (a # acts) t = apply_actions stamp acts (apply_action stamp a t)"
  by (simp add: apply_actions_def)

lemma apply_action_other: "action_relpath a \<noteq> p \<Longrightarrow> apply_action stamp a t p = t p"
  by (cases a) simp_all

lemma apply_actions_untouched:
  "p \<notin> action_relpath ` set acts \<Longrightarrow> apply_actions stamp acts t p = t p"
proof (induction acts arbitrary: t)
  case Nil
  then show ?case by (simp add: apply_actions_Nil)
next
  case (Cons a acts)
  then have "action_relpath a \<noteq> p" and "p \<notin> action_relpath ` set acts" by auto
  then show ?case
    using Cons.IH[of "apply_action stamp a t"]
    by (simp add: apply_actions_Cons apply_action_other)
qed

lemma apply_actions_copy:
  "distinct (map action_relpath acts) \<Longrightarrow> CopyAction p sz \<in> set acts \<Longrightarrow>
   apply_actions stamp acts t p = Some (sz, stamp p)"
proof (induction acts arbitrary: t)
  case Nil
  then show ?case by simp
next
  case (Cons a acts)
  show ?case
  proof (cases "a = CopyAction p sz")
    case True
    with Cons.prems(1) have "p \<notin> action_relpath ` set acts" by auto
    then show ?thesis
      using True by (simp add: apply_actions_Cons apply_actions_untouched)
  next
    case False
    with Cons.prems(2) have m: "CopyAction p sz \<in> set acts" by simp
    then have "p \<in> action_relpath ` set acts" by force
    with Cons.prems(1) have "action_relpath a \<noteq> p" by auto
    from Cons.IH[OF _ m] Cons.prems(1) show ?thesis
      by (simp add: apply_actions_Cons)
  qed
qed

lemma apply_actions_delete:
  "distinct (map action_relpath acts) \<Longrightarrow> DeleteAction p \<in> set acts \<Longrightarrow>
   apply_actions stamp acts t p = None"
proof (induction acts arbitrary: t)
  case Nil
  then show ?case by simp
next
  case (Cons a acts)
  show ?case
  proof (cases "a = DeleteAction p")
    case True
    with Cons.prems(1) have "p \<notin> action_relpath ` set acts" by auto
    then show ?thesis
      using True by (simp add: apply_actions_Cons apply_actions_untouched)
  next
    case False
    with Cons.prems(2) have m: "DeleteAction p \<in> set acts" by simp
    from Cons.IH[OF _ m] Cons.prems(1) show ?thesis
      by (simp add: apply_actions_Cons)
  qed
qed

lemma permuted_actions:
  assumes "mset order = mset acts" and "distinct (map action_relpath acts)"
  shows "set order = set acts" and "distinct (map action_relpath order)"
proof -
  show "set order = set acts" using assms(1) by (rule mset_eq_setD)
  have "mset (map action_relpath order) = mset (map action_relpath acts)"
    using assms(1) by (metis mset_map)
  then show "distinct (map action_relpath order)"
    using assms(2) by (metis mset_eq_imp_distinct_iff)
qed

lemma sync_tree_src:
  assumes ds: "distinct (map relpath src)" and dd: "distinct (map relpath dst)"
    and perm: "mset order = mset (sync_iterator changed delete src dst)"
    and s: "s \<in> set src"
  shows "\<exists>m. apply_actions stamp order (tree_of dst) (relpath s) = Some (entry_size s, m)
           \<and> (m = stamp (relpath s)
              \<or> (\<exists>d \<in> set dst. relpath d = relpath s \<and> \<not> differs changed s d \<and> m = mtime d))"
proof -
  note p = permuted_actions[OF perm sync_iterator_distinct[OF ds dd]]
  have uniq: "\<And>x. x \<in> set src \<Longrightarrow> relpath x = relpath s \<Longrightarrow> x = s"
    using ds s by (meson distinct_map inj_onD)
  show ?thesis
  proof (cases "\<forall>d \<in> set dst. relpath d = relpath s \<longrightarrow> differs changed s d")
    case True
    then have "CopyAction (relpath s) (entry_size s) \<in> set order"
      using s unfolding p(1) sync_iterator_copy_iff[OF ds dd] by blast
    from apply_actions_copy[OF p(2) this] show ?thesis by simp
  next
    case False
    then obtain d where d: "d \<in> set dst" "relpath d = relpath s" "\<not> differs changed s d" by blast
    have "relpath s \<notin> action_relpath ` set order"
    proof
      assume "relpath s \<in> action_relpath ` set order"
      then obtain a where a: "a \<in> set (sync_iterator changed delete src dst)" "action_relpath a = relpath s"
        unfolding p(1) by auto
      show False
      proof (cases a)
        case (CopyAction q sz)
        with a have "CopyAction (relpath s) sz \<in> set (sync_iterator changed delete src dst)" by simp
        then obtain x where "x \<in> set src" "relpath x = relpath s"
          "\<forall>d \<in> set dst. relpath d = relpath s \<longrightarrow> differs changed x d"
          unfolding sync_iterator_copy_iff[OF ds dd] by blast
        with uniq d show False by blast
      next
        case (DeleteAction q)
        with a have "DeleteAction (relpath s) \<in> set (sync_iterator changed delete src dst)" by simp
        then show False unfolding sync_iterator_delete_iff[OF ds dd] using s by blast
      qed
    qed
    then have "apply_actions stamp order (tree_of dst) (relpath s) = tree_of dst (relpath s)"
      by (rule apply_actions_untouched)
    also have "\<dots> = Some (entry_size d, mtime d)"
      using tree_of_entry[OF dd d(1)] d(2) by simp
    also have "entry_size d = entry_size s" using d(3) by (simp add: differs_def)
    finally show ?thesis using d by blast
  qed
qed

lemma sync_tree_not_src:
  assumes ds: "distinct (map relpath src)" and dd: "distinct (map relpath dst)"
    and perm: "mset order = mset (sync_iterator changed delete src dst)"
    and n: "p \<notin> relpath ` set src"
  shows "apply_actions stamp order (tree_of dst) p = (if delete then None else tree_of dst p)"
proof (cases "delete \<and> p \<in> relpath ` set dst")
  case True
  note q = permuted_actions[OF perm sync_iterator_distinct[OF ds dd]]
  have "DeleteAction p \<in> set order"
    unfolding q(1) sync_iterator_delete_iff[OF ds dd] using True n by simp
  from apply_actions_delete[OF q(2) this] True show ?thesis by simp
next
  case False
  note q = permuted_actions[OF perm sync_iterator_distinct[OF ds dd]]
  have "p \<notin> action_relpath ` set order"
  proof
    assume "p \<in> action_relpath ` set order"
    then obtain a where a: "a \<in> set (sync_iterator changed delete src dst)" "action_relpath a = p"
      unfolding q(1) by auto
    show False
    proof (cases a)
      case (CopyAction q' sz)
      with a have "CopyAction p sz \<in> set (sync_iterator changed delete src dst)" by simp
      then show False unfolding sync_iterator_copy_iff[OF ds dd] using n by blast
    next
      case (DeleteAction q')
      with a have "DeleteAction p \<in> set (sync_iterator changed delete src dst)" by simp
      then show False unfolding sync_iterator_delete_iff[OF ds dd] using False by blast
    qed
  qed
  then have "apply_actions stamp order (tree_of dst) p = tree_of dst p"
    by (rule apply_actions_untouched)
  moreover have "tree_of dst p = None" if delete using that False by (simp add: tree_of_None_iff)
  ultimately show ?thesis by simp
qed

lemma sync_makes_synced:
  assumes ds: "distinct (map relpath src)" and dd: "distinct (map relpath dst)"
    and perm: "mset order = mset (sync_iterator changed delete src dst)"
  shows "synced delete (tree_of src) (apply_actions stamp order (tree_of dst))"
proof -
  let ?t = "apply_actions stamp order (tree_of dst)"
  have in_src: "path_sizes ?t p = path_sizes (tree_of src) p" if "p \<in> relpath ` set src" for p
  proof -
    from that obtain s where s: "s \<in> set src" "relpath s = p" by auto
    from sync_tree_src[OF ds dd perm s(1), of stamp] s(2)
    obtain m where "?t p = Some (entry_size s, m)" by auto
    moreover have "tree_of src p = Some (entry_size s, mtime s)"
      using tree_of_entry[OF ds s(1)] s(2) by simp
    ultimately show ?thesis by (simp add: path_sizes_def)
  qed
  have not_src: "path_sizes (tree_of src) p = None" if "p \<notin> relpath ` set src" for p
    using that by (simp add: path_sizes_def tree_of_None_iff)
  show ?thesis
  proof (cases delete)
    case True
    have "path_sizes ?t p = path_sizes (tree_of src) p" for p
    proof (cases "p \<in> relpath ` set src")
      case True
      then show ?thesis by (rule in_src)
    next
      case False
      from sync_tree_not_src[OF ds dd perm False, of stamp] \<open>delete\<close>
      have "?t p = None" by simp
      with not_src[OF False] show ?thesis by (simp add: path_sizes_def)
    qed
    then show ?thesis using True by (auto simp: synced_def)
  next
    case False
    have "path_sizes (tree_of src) \<subseteq>\<^sub>m path_sizes ?t"
      unfolding map_le_def
    proof
      fix p assume "p \<in> dom (path_sizes (tree_of src))"
      then have "path_sizes (tree_of src) p \<noteq> None" by auto
      with not_src[of p] have "p \<in> relpath ` set src" by blast
      from in_src[OF this] show "path_sizes (tree_of src) p = path_sizes ?t p" by simp
    qed
    then show ?thesis using False by (simp add: synced_def)
  qed
qed

lemma synced_touches_needed:
  assumes "synced delete s (apply_actions stamp acts d)"
  shows "needed delete s d \<subseteq> action_relpath ` set acts"
proof
  fix p assume p: "p \<in> needed delete s d"
  show "p \<in> action_relpath ` set acts"
  proof (rule ccontr)
    assume "p \<notin> action_relpath ` set acts"
    then have same: "apply_actions stamp acts d p = d p" by (rule apply_actions_untouched)
    from p consider (copy) sz where "path_sizes s p = Some sz" "path_sizes d p \<noteq> Some sz"
      | (erase) "delete" "s p = None" "d p \<noteq> None"
      by (auto simp: needed_def split: if_splits)
    then show False
    proof cases
      case copy
      have "path_sizes (apply_actions stamp acts d) p = Some sz"
      proof (cases delete)
        case True
        with assms copy(1) show ?thesis by (simp add: synced_def)
      next
        case False
        with assms have "path_sizes s \<subseteq>\<^sub>m path_sizes (apply_actions stamp acts d)"
          by (simp add: synced_def)
        with copy(1) show ?thesis by (metis domI map_le_def)
      qed
      with same copy(2) show False by (simp add: path_sizes_def)
    next
      case erase
      with assms have "path_sizes (apply_actions stamp acts d) p = path_sizes s p"
        by (simp add: synced_def)
      with same erase show False by (simp add: path_sizes_def)
    qed
  qed
qed

lemma notin_image: "\<forall>a \<in> A. f a \<noteq> y \<Longrightarrow> y \<notin> f ` A"
  by blast

lemma relpath_unique:
  "distinct (map relpath es) \<Longrightarrow> x \<in> set es \<Longrightarrow> y \<in> set es \<Longrightarrow> relpath x = relpath y \<Longrightarrow> x = y"
  by (meson distinct_map inj_onD)

lemma count_list_distinct: "distinct xs \<Longrightarrow> count_list xs x = (if x \<in> set xs then 1 else 0)"
  by (induction xs) auto

lemma sync_Some_iff:
  "sync changed stamp delete order src dst = Some (t, ps) \<longleftrightarrow>
     mset order = mset (sync_iterator changed delete src dst)
     \<and> t = apply_actions stamp order (tree_of dst) \<and> ps = map action_relpath order"
  by (auto simp: sync_def)

end
